theory Spec2Isabelle
  imports Main "HOL-Library.Sublist"
begin

section \<open>Python strings and the Unicode tables of the runtime\<close>

text \<open>
  A Python \<open>str\<close> is a sequence of Unicode code points, so a text is a list of naturals
  (indices, slices and the window of the label search count code points, not bytes).
  Source literals that are plain ASCII are written \<open>ascii ''...''\<close>; the three characters
  outside ASCII that the source mentions are named below.
\<close>

type_synonym ustring = "nat list"

definition ascii :: "string \<Rightarrow> ustring" where
  "ascii s = map of_char s"

definition RUPEE :: nat where "RUPEE = 8377"
definition UMINUS :: nat where "UMINUS = 8722"
definition ENDASH :: nat where "ENDASH = 8211"

text \<open>
  What \<open>str.strip\<close>, \<open>str.lower\<close> and the \<open>re\<close> module read from the interpreter's Unicode
  database is a parameter of the model: whitespace (\<open>\s\<close>, \<open>strip\<close>), decimal digits
  (\<open>\d\<close>), alphanumerics (\<open>\w\<close> and \<open>\b\<close>, with the underscore added), which further
  characters a pattern character matches under \<open>re.IGNORECASE\<close>, and \<open>str.lower\<close>.
\<close>

record unicode_db =
  u_isspace :: "nat \<Rightarrow> bool"
  u_isdecimal :: "nat \<Rightarrow> bool"
  u_isalnum :: "nat \<Rightarrow> bool"
  u_caseless :: "nat \<Rightarrow> nat \<Rightarrow> bool"
  u_lower :: "ustring \<Rightarrow> ustring"

text \<open>The tables restricted to ASCII, for evaluating the model on concrete texts.\<close>

definition ascii_space :: "nat \<Rightarrow> bool" where
  "ascii_space c = ((9 \<le> c \<and> c \<le> 13) \<or> (28 \<le> c \<and> c \<le> 32))"

definition ascii_digit :: "nat \<Rightarrow> bool" where
  "ascii_digit c = (48 \<le> c \<and> c \<le> 57)"

definition ascii_upper :: "nat \<Rightarrow> bool" where
  "ascii_upper c = (65 \<le> c \<and> c \<le> 90)"

definition ascii_alpha :: "nat \<Rightarrow> bool" where
  "ascii_alpha c = (ascii_upper c \<or> (97 \<le> c \<and> c \<le> 122))"

definition ascii_lower_char :: "nat \<Rightarrow> nat" where
  "ascii_lower_char c = (if ascii_upper c then c + 32 else c)"

definition ascii_db :: unicode_db where
  "ascii_db = \<lparr> u_isspace = ascii_space,
                u_isdecimal = ascii_digit,
                u_isalnum = (\<lambda>c. ascii_alpha c \<or> ascii_digit c),
                u_caseless = (\<lambda>c d. ascii_lower_char c = ascii_lower_char d),
                u_lower = map ascii_lower_char \<rparr>"

definition py_strip :: "unicode_db \<Rightarrow> ustring \<Rightarrow> ustring" where
  "py_strip U s = rev (dropWhile (u_isspace U) (rev (dropWhile (u_isspace U) s)))"

text \<open>\<open>s[i:j]\<close> for \<open>0 \<le> i\<close> and any integer \<open>j\<close> (a negative \<open>j\<close> counts from the end).\<close>

definition py_slice :: "ustring \<Rightarrow> nat \<Rightarrow> int \<Rightarrow> ustring" where
  "py_slice s i j =
     (let n = int (length s);
          j' = (if j < 0 then max 0 (n + j) else min j n)
      in take (nat j' - i) (drop i s))"

section \<open>The regular expressions of the \<open>re\<close> module\<close>

text \<open>
  The patterns of the source use literals, character classes, \<open>.\<close> under \<open>re.DOTALL\<close>,
  \<open>^\<close>, \<open>\b\<close>, groups, alternation and greedy and lazy bounded repetition. A pattern is a
  value of \<open>regex\<close>; \<open>Rep lo hi greedy r\<close> is \<open>r{lo,hi}\<close> (\<open>hi = None\<close>: unbounded).
\<close>

datatype citem = CChar nat | CRange nat nat | CSpace | CDigit | CNotSpace

datatype regex =
    Lit nat
  | Cls "citem list"
  | AnyChar
  | Bol
  | WordB
  | Eps
  | Seq regex regex
  | Alt regex regex
  | Rep nat "nat option" bool regex
  | Grp nat regex

text \<open>
  The matcher's state: the offset in the subject, the character before it, the characters
  from it on, and the groups captured so far (the latest first).
\<close>

record mstate =
  ms_pos :: nat
  ms_prev :: "nat option"
  ms_rest :: ustring
  ms_caps :: "(nat \<times> nat \<times> nat) list"

definition lit_ok :: "unicode_db \<Rightarrow> bool \<Rightarrow> nat \<Rightarrow> nat \<Rightarrow> bool" where
  "lit_ok U ic c d = (c = d \<or> (ic \<and> u_caseless U c d))"

fun item_ok :: "unicode_db \<Rightarrow> bool \<Rightarrow> citem \<Rightarrow> nat \<Rightarrow> bool" where
  "item_ok U ic (CChar c) d = lit_ok U ic c d"
| "item_ok U ic (CRange lo hi) d =
     ((lo \<le> d \<and> d \<le> hi) \<or> (ic \<and> list_ex (\<lambda>c. u_caseless U c d) [lo..<Suc hi]))"
| "item_ok U ic CSpace d = u_isspace U d"
| "item_ok U ic CDigit d = u_isdecimal U d"
| "item_ok U ic CNotSpace d = (\<not> u_isspace U d)"

definition is_word :: "unicode_db \<Rightarrow> nat \<Rightarrow> bool" where
  "is_word U c = (u_isalnum U c \<or> c = 95)"

definition at_boundary :: "unicode_db \<Rightarrow> mstate \<Rightarrow> bool" where
  "at_boundary U s =
     ((case ms_prev s of None \<Rightarrow> False | Some c \<Rightarrow> is_word U c)
      \<noteq> (case ms_rest s of [] \<Rightarrow> False | d # ds \<Rightarrow> is_word U d))"

definition step :: "(nat \<Rightarrow> bool) \<Rightarrow> mstate \<Rightarrow> mstate list" where
  "step P s =
     (case ms_rest s of
        [] \<Rightarrow> []
      | d # ds \<Rightarrow>
          if P d then [\<lparr>ms_pos = Suc (ms_pos s), ms_prev = Some d, ms_rest = ds, ms_caps = ms_caps s\<rparr>]
          else [])"

fun dec :: "nat option \<Rightarrow> nat option" where
  "dec None = None"
| "dec (Some n) = Some (n - 1)"

text \<open>
  Backtracking as a list of successes, the preferred one first. \<open>rep_loop f lo hi greedy\<close>
  repeats the matcher \<open>f\<close>: the first \<open>lo\<close> rounds are owed; after them a greedy repetition
  prefers one more round to stopping, a lazy one prefers stopping, and a round that
  consumed nothing is not repeated.
\<close>

function rep_loop ::
  "(mstate \<Rightarrow> mstate list) \<Rightarrow> nat \<Rightarrow> nat option \<Rightarrow> bool \<Rightarrow> mstate \<Rightarrow> mstate list" where
  "rep_loop f lo hi g s =
     (if 0 < lo then concat (map (rep_loop f (lo - 1) (dec hi) g) (f s))
      else if hi = Some 0 then [s]
      else
        (let more = concat (map (rep_loop f 0 (dec hi) g)
                      (filter (\<lambda>s'. length (ms_rest s') < length (ms_rest s)) (f s)))
         in if g then more @ [s] else s # more))"
  by pat_completeness auto
termination
  by (relation "measures [\<lambda>(f, lo, hi, g, s). lo, \<lambda>(f, lo, hi, g, s). length (ms_rest s)]") auto

declare rep_loop.simps [simp del]

primrec rx_run :: "regex \<Rightarrow> unicode_db \<Rightarrow> bool \<Rightarrow> mstate \<Rightarrow> mstate list" where
  "rx_run (Lit c) U ic s = step (lit_ok U ic c) s"
| "rx_run (Cls its) U ic s = step (\<lambda>d. list_ex (\<lambda>it. item_ok U ic it d) its) s"
| "rx_run AnyChar U ic s = step (\<lambda>d. True) s"
| "rx_run Bol U ic s = (if ms_pos s = 0 then [s] else [])"
| "rx_run WordB U ic s = (if at_boundary U s then [s] else [])"
| "rx_run Eps U ic s = [s]"
| "rx_run (Seq a b) U ic s = concat (map (rx_run b U ic) (rx_run a U ic s))"
| "rx_run (Alt a b) U ic s = rx_run a U ic s @ rx_run b U ic s"
| "rx_run (Rep lo hi g r) U ic s = rep_loop (rx_run r U ic) lo hi g s"
| "rx_run (Grp k r) U ic s =
     map (\<lambda>s'. s'\<lparr>ms_caps := (k, ms_pos s, ms_pos s') # ms_caps s'\<rparr>) (rx_run r U ic s)"

text \<open>A match object: \<open>m.start()\<close>, \<open>m.end()\<close> and the spans of its groups.\<close>

record rmatch =
  m_start :: nat
  m_end :: nat
  m_caps :: "(nat \<times> nat \<times> nat) list"

text \<open>
  One attempt at offset \<open>p\<close>: the first success; with \<open>adv\<close> set (the scan resumes where an
  empty match ended) the first success that is not empty.
\<close>

definition try_at ::
  "regex \<Rightarrow> unicode_db \<Rightarrow> bool \<Rightarrow> bool \<Rightarrow> nat \<Rightarrow> nat option \<Rightarrow> ustring \<Rightarrow> rmatch option" where
  "try_at r U ic adv p pv cs =
     map_option (\<lambda>s. \<lparr>m_start = p, m_end = ms_pos s, m_caps = ms_caps s\<rparr>)
       (find (\<lambda>s. adv \<longrightarrow> ms_pos s \<noteq> p)
          (rx_run r U ic \<lparr>ms_pos = p, ms_prev = pv, ms_rest = cs, ms_caps = []\<rparr>))"

fun search_from ::
  "regex \<Rightarrow> unicode_db \<Rightarrow> bool \<Rightarrow> nat \<Rightarrow> nat option \<Rightarrow> ustring \<Rightarrow> rmatch option" where
  "search_from r U ic p pv cs =
     (case try_at r U ic False p pv cs of
        Some a \<Rightarrow> Some a
      | None \<Rightarrow> (case cs of [] \<Rightarrow> None | c # cs' \<Rightarrow> search_from r U ic (Suc p) (Some c) cs'))"

declare search_from.simps [simp del]

text \<open>\<open>re.search(pattern, text, flags)\<close>: the leftmost offset with a match.\<close>

definition re_search :: "regex \<Rightarrow> unicode_db \<Rightarrow> bool \<Rightarrow> ustring \<Rightarrow> rmatch option" where
  "re_search r U ic text = search_from r U ic 0 None text"

text \<open>
  The scan of \<open>re.findall\<close> and \<open>re.sub\<close>: matches from left to right that do not overlap.
  Offsets before \<open>resume\<close> lie inside the previous match. After an empty match the same
  offset is tried once more for a match that is not empty.
\<close>

definition matches_here ::
  "regex \<Rightarrow> unicode_db \<Rightarrow> bool \<Rightarrow> nat \<Rightarrow> nat \<Rightarrow> nat option \<Rightarrow> ustring \<Rightarrow> rmatch list" where
  "matches_here r U ic resume p pv cs =
     (if p < resume then []
      else (case try_at r U ic False p pv cs of
              None \<Rightarrow> []
            | Some a \<Rightarrow>
                if m_end a = p
                then (case try_at r U ic True p pv cs of None \<Rightarrow> [a] | Some b \<Rightarrow> [a, b])
                else [a]))"

fun iter_from ::
  "regex \<Rightarrow> unicode_db \<Rightarrow> bool \<Rightarrow> nat \<Rightarrow> nat \<Rightarrow> nat option \<Rightarrow> ustring \<Rightarrow> rmatch list" where
  "iter_from r U ic resume p pv cs =
     (let here = matches_here r U ic resume p pv cs;
          resume' = (if here = [] then resume else m_end (last here))
      in here @ (case cs of [] \<Rightarrow> [] | c # cs' \<Rightarrow> iter_from r U ic resume' (Suc p) (Some c) cs'))"

declare iter_from.simps [simp del]

definition finditer :: "regex \<Rightarrow> unicode_db \<Rightarrow> bool \<Rightarrow> ustring \<Rightarrow> rmatch list" where
  "finditer r U ic text = iter_from r U ic 0 0 None text"

definition span :: "ustring \<Rightarrow> nat \<Rightarrow> nat \<Rightarrow> ustring" where
  "span text b e = take (e - b) (drop b text)"

text \<open>\<open>m.group(k)\<close> for \<open>k \<ge> 1\<close>: \<open>None\<close> when the group took no part in the match.\<close>

definition group :: "ustring \<Rightarrow> rmatch \<Rightarrow> nat \<Rightarrow> ustring option" where
  "group text a k = map_option (\<lambda>(b, e). span text b e) (map_of (m_caps a) k)"

text \<open>\<open>re.findall\<close> for a pattern without groups, and for a pattern with one group.\<close>

definition findall0 :: "regex \<Rightarrow> unicode_db \<Rightarrow> bool \<Rightarrow> ustring \<Rightarrow> ustring list" where
  "findall0 r U ic text = map (\<lambda>a. span text (m_start a) (m_end a)) (finditer r U ic text)"

definition findall1 :: "regex \<Rightarrow> unicode_db \<Rightarrow> bool \<Rightarrow> ustring \<Rightarrow> ustring list" where
  "findall1 r U ic text =
     map (\<lambda>a. case group text a 1 of None \<Rightarrow> [] | Some v \<Rightarrow> v) (finditer r U ic text)"

text \<open>\<open>re.sub(pattern, "", text)\<close>: the text between the matches.\<close>

fun cut_matches :: "ustring \<Rightarrow> nat \<Rightarrow> rmatch list \<Rightarrow> ustring" where
  "cut_matches text cur [] = drop cur text"
| "cut_matches text cur (a # as) = span text cur (m_start a) @ cut_matches text (m_end a) as"

definition re_sub_empty :: "regex \<Rightarrow> unicode_db \<Rightarrow> bool \<Rightarrow> ustring \<Rightarrow> ustring" where
  "re_sub_empty r U ic text = cut_matches text 0 (finditer r U ic text)"

subsection \<open>Pattern notation\<close>

definition str :: "string \<Rightarrow> regex" where
  "str s = foldr (\<lambda>c r. Seq (Lit (of_char c)) r) s Eps"

fun seqs :: "regex list \<Rightarrow> regex" where
  "seqs [] = Eps"
| "seqs [r] = r"
| "seqs (r # rs) = Seq r (seqs rs)"

definition Star :: "regex \<Rightarrow> regex" where "Star r = Rep 0 None True r"
definition Plus :: "regex \<Rightarrow> regex" where "Plus r = Rep 1 None True r"
definition Opt :: "regex \<Rightarrow> regex" where "Opt r = Rep 0 (Some 1) True r"
definition Space :: regex where "Space = Cls [CSpace]"
definition Digit :: regex where "Digit = Cls [CDigit]"

definition ch :: "char \<Rightarrow> nat" where
  "ch c = of_char c"

definition NL :: nat where "NL = 10"

fun has_group :: "nat \<Rightarrow> regex \<Rightarrow> bool" where
  "has_group k (Grp j r) = (k = j \<or> has_group k r)"
| "has_group k (Seq a b) = (has_group k a \<or> has_group k b)"
| "has_group k (Alt a b) = (has_group k a \<or> has_group k b)"
| "has_group k (Rep lo hi g r) = has_group k r"
| "has_group k r = False"

section \<open>parsers.py\<close>

datatype exn_kind =
  AttributeError | TypeError | IndexError | ImportError | PermissionError | ValueError | LibraryError

text \<open>
  A record of fields is a Python dict from field names to \<open>Optional[str]\<close>: a key that is
  present maps to \<open>Some None\<close> (the value \<open>None\<close>) or to \<open>Some (Some v)\<close>.
\<close>

type_synonym fields = "string \<rightharpoonup> ustring option"

definition FIELDS :: "string list" where
  "FIELDS = [''total_balance'', ''payment_due_date'', ''minimum_payment'', ''last4'',
             ''statement_closing_date'']"

definition empty_fields :: fields where
  "empty_fields = map_of (map (\<lambda>k. (k, None)) FIELDS)"

subsection \<open>Shared helpers\<close>

text \<open>\<^verbatim>\<open>^[Rr\s]+\<close> with the rupee sign U+20B9 in place of \<open>R\<close> (no flags).\<close>

definition lead_re :: regex where
  "lead_re = Seq Bol (Plus (Cls [CChar RUPEE, CChar (ch CHR ''r''), CSpace]))"

text \<open>\<^verbatim>\<open>\s*CR\b\<close> (IGNORECASE).\<close>

definition cr_re :: regex where
  "cr_re = seqs [Star Space, Lit (ch CHR ''C''), Lit (ch CHR ''R''), WordB]"

definition clean_amount :: "unicode_db \<Rightarrow> ustring \<Rightarrow> ustring" where
  "clean_amount U s0 =
     (let s1 = py_strip U s0;
          s2 = map (\<lambda>c. if c = UMINUS then ch CHR ''-'' else c) s1;
          s3 = re_sub_empty lead_re U False s2;
          s4 = re_sub_empty cr_re U True s3
      in s4)"

definition last4_from_number_block :: "unicode_db \<Rightarrow> ustring \<Rightarrow> ustring option" where
  "last4_from_number_block U s =
     (let digits = findall0 Digit U False s
      in if digits = [] then None
         else if 4 \<le> length digits
              then Some (drop (length (concat digits) - 4) (concat digits))
              else None)"

text \<open>
  \<open>mv.group(1)\<close> raises IndexError for a pattern without a group 1, and \<open>.strip()\<close> raises
  AttributeError on the \<open>None\<close> of a group that took no part in the match.
\<close>

definition find_value_after_label ::
  "unicode_db \<Rightarrow> ustring \<Rightarrow> regex \<Rightarrow> regex \<Rightarrow> int \<Rightarrow> exn_kind + ustring option" where
  "find_value_after_label U text label_pattern value_pattern window =
     (case re_search label_pattern U True text of
        None \<Rightarrow> Inr None
      | Some a \<Rightarrow>
          (let start = m_end a;
               snippet = py_slice text start (int start + window)
           in case re_search value_pattern U True snippet of
                Some mv \<Rightarrow>
                  if \<not> has_group 1 value_pattern then Inl IndexError
                  else (case group snippet mv 1 of
                          None \<Rightarrow> Inl AttributeError
                        | Some v \<Rightarrow> Inr (Some (py_strip U v)))
              | None \<Rightarrow> Inr None))"

fun bind_res :: "'e + 'a \<Rightarrow> ('a \<Rightarrow> 'e + 'b) \<Rightarrow> 'e + 'b" where
  "bind_res (Inl e) f = Inl e"
| "bind_res (Inr x) f = f x"

text \<open>What the routines do with \<open>m.group(1)\<close>, which is \<open>None\<close> for a group that took no part.\<close>

definition stripped :: "unicode_db \<Rightarrow> ustring option \<Rightarrow> exn_kind + ustring option" where
  "stripped U g = (case g of None \<Rightarrow> Inl AttributeError | Some v \<Rightarrow> Inr (Some (py_strip U v)))"

definition cleaned :: "unicode_db \<Rightarrow> ustring option \<Rightarrow> exn_kind + ustring option" where
  "cleaned U g = (case g of None \<Rightarrow> Inl AttributeError | Some v \<Rightarrow> Inr (Some (clean_amount U v)))"

definition last4_of :: "unicode_db \<Rightarrow> ustring option \<Rightarrow> exn_kind + ustring option" where
  "last4_of U g = (case g of None \<Rightarrow> Inl TypeError | Some v \<Rightarrow> Inr (last4_from_number_block U v))"

definition as_is :: "ustring option \<Rightarrow> exn_kind + ustring option" where
  "as_is g = Inr g"

text \<open>
  The idiom \<open>m = re.search(P, text, re.IGNORECASE); if m: out[key] = f(m.group(k))\<close>.
\<close>

definition group_into ::
  "ustring \<Rightarrow> rmatch option \<Rightarrow> nat \<Rightarrow> (ustring option \<Rightarrow> exn_kind + ustring option) \<Rightarrow>
   string \<Rightarrow> fields \<Rightarrow> exn_kind + fields" where
  "group_into text m k f key out =
     (case m of
        None \<Rightarrow> Inr out
      | Some a \<Rightarrow> bind_res (f (group text a k)) (\<lambda>v. Inr (out(key \<mapsto> v))))"

definition search_into ::
  "unicode_db \<Rightarrow> ustring \<Rightarrow> regex \<Rightarrow> nat \<Rightarrow> (ustring option \<Rightarrow> exn_kind + ustring option) \<Rightarrow>
   string \<Rightarrow> fields \<Rightarrow> exn_kind + fields" where
  "search_into U text r k f key out = group_into text (re_search r U True text) k f key out"

text \<open>The truth value of an \<open>Optional[str]\<close>: \<open>None\<close> and the empty string are false.\<close>

definition truthy :: "ustring option \<Rightarrow> bool" where
  "truthy v = (case v of None \<Rightarrow> False | Some s \<Rightarrow> s \<noteq> [])"

text \<open>
  The idiom \<open>v = _find_value_after_label(text, L, V, window=w); if v: out[key] = f(v)\<close>.
\<close>

definition label_into ::
  "unicode_db \<Rightarrow> ustring \<Rightarrow> regex \<Rightarrow> regex \<Rightarrow> int \<Rightarrow> (ustring \<Rightarrow> ustring) \<Rightarrow>
   string \<Rightarrow> fields \<Rightarrow> exn_kind + fields" where
  "label_into U text l v w f key out =
     bind_res (find_value_after_label U text l v w)
       (\<lambda>v. Inr (case (if truthy v then v else None) of
                      Some x \<Rightarrow> out(key \<mapsto> Some (f x))
                    | None \<Rightarrow> out))"

subsection \<open>Pattern fragments\<close>

definition colon_space :: regex where
  "colon_space = Star (Cls [CChar (ch CHR '':''), CSpace])"

text \<open>\<^verbatim>\<open>[\d,]+(?:\.\d{2})?\<close>\<close>

definition amount :: regex where
  "amount = Seq (Plus (Cls [CDigit, CChar (ch CHR '','')]))
                (Opt (Seq (Lit (ch CHR ''.'')) (Rep 2 (Some 2) True Digit)))"

text \<open>\<^verbatim>\<open>\$?([\d,]+(?:\.\d{2})?)\<close>\<close>

definition dollar_amount :: regex where
  "dollar_amount = Seq (Opt (Lit (ch CHR ''$''))) (Grp 1 amount)"

text \<open>\<^verbatim>\<open>([Rr]?\s*(?:\d{1,3}(?:,\d{3})+|\d+\.\d{2}))\<close> with U+20B9 in place of \<open>R\<close>.\<close>

definition rupee_amount :: regex where
  "rupee_amount =
     Grp 1 (seqs [Opt (Cls [CChar RUPEE, CChar (ch CHR ''r'')]), Star Space,
                  Alt (Seq (Rep 1 (Some 3) True Digit)
                           (Plus (Seq (Lit (ch CHR '','')) (Rep 3 (Some 3) True Digit))))
                      (seqs [Plus Digit, Lit (ch CHR ''.''), Rep 2 (Some 2) True Digit])])"

definition d09 :: regex where
  "d09 = Cls [CRange (ch CHR ''0'') (ch CHR ''9'')]"

text \<open>\<^verbatim>\<open>([0-9]{1,2}/[0-9]{1,2}/[0-9]{2,4})\<close>\<close>

definition slash_date :: regex where
  "slash_date = Grp 1 (seqs [Rep 1 (Some 2) True d09, Lit (ch CHR ''/''), Rep 1 (Some 2) True d09,
                             Lit (ch CHR ''/''), Rep 2 (Some 4) True d09])"

text \<open>\<^verbatim>\<open>(\d{1,2}/\d{1,2}/\d{2,4})\<close>\<close>

definition slash_date_d :: regex where
  "slash_date_d = Grp 1 (seqs [Rep 1 (Some 2) True Digit, Lit (ch CHR ''/''), Rep 1 (Some 2) True Digit,
                               Lit (ch CHR ''/''), Rep 2 (Some 4) True Digit])"

definition alnum_items :: "citem list" where
  "alnum_items = [CRange (ch CHR ''A'') (ch CHR ''Z''), CRange (ch CHR ''a'') (ch CHR ''z''),
                  CRange (ch CHR ''0'') (ch CHR ''9'')]"

subsection \<open>Bank 1\<close>

text \<open>\<^verbatim>\<open>(?:New\s*Balance)[:\s]*\$?([\d,]+(?:\.\d{2})?)\<close>\<close>

definition b1_balance :: regex where
  "b1_balance = seqs [str ''New'', Star Space, str ''Balance'', colon_space, dollar_amount]"

text \<open>\<^verbatim>\<open>Payment\s*Due\s*Date[:\s]*([A-Za-z0-9/\-D]+)\<close> with the en dash U+2013 in place of \<open>D\<close>.\<close>

definition b1_due :: regex where
  "b1_due = seqs [str ''Payment'', Star Space, str ''Due'', Star Space, str ''Date'', colon_space,
                  Grp 1 (Plus (Cls (alnum_items @ [CChar (ch CHR ''/''), CChar (ch CHR ''-''),
                                                   CChar ENDASH])))]"

text \<open>\<^verbatim>\<open>Minimum\s*Payment(?:\s*Due)?[:\s]*\$?([\d,]+(?:\.\d{2})?)\<close>\<close>

definition b1_minimum :: regex where
  "b1_minimum = seqs [str ''Minimum'', Star Space, str ''Payment'',
                      Opt (Seq (Star Space) (str ''Due'')), colon_space, dollar_amount]"

text \<open>\<^verbatim>\<open>Account\s*Number[:\s]*([\d\-\s]+)\<close>\<close>

definition b1_account :: regex where
  "b1_account = seqs [str ''Account'', Star Space, str ''Number'', colon_space,
                      Grp 1 (Plus (Cls [CDigit, CChar (ch CHR ''-''), CSpace]))]"

text \<open>
  \<^verbatim>\<open>Opening/Closing\s*Date\s*([A-Za-z0-9/\-]+)\s*[D-]\s*([A-Za-z0-9/\-]+)\<close> with the en dash
  U+2013 in place of \<open>D\<close>.
\<close>

definition date_word :: regex where
  "date_word = Plus (Cls (alnum_items @ [CChar (ch CHR ''/''), CChar (ch CHR ''-'')]))"

definition b1_closing :: regex where
  "b1_closing = seqs [str ''Opening/Closing'', Star Space, str ''Date'', Star Space,
                      Grp 1 date_word, Star Space, Cls [CChar ENDASH, CChar (ch CHR ''-'')],
                      Star Space, Grp 2 date_word]"

definition parse_bank_1 :: "unicode_db \<Rightarrow> ustring \<Rightarrow> exn_kind + fields" where
  "parse_bank_1 U text =
     (let out = empty_fields;
          m_all = findall1 b1_balance U True text;
          out = (if m_all \<noteq> [] then out(''total_balance'' \<mapsto> Some (clean_amount U (last m_all)))
                 else out)
      in bind_res (search_into U text b1_due 1 (stripped U) ''payment_due_date'' out) (\<lambda>out.
         bind_res (search_into U text b1_minimum 1 (cleaned U) ''minimum_payment'' out) (\<lambda>out.
         bind_res (search_into U text b1_account 1 (last4_of U) ''last4'' out) (\<lambda>out.
         search_into U text b1_closing 2 (stripped U) ''statement_closing_date'' out))))"

subsection \<open>Bank 2\<close>

text \<open>\<^verbatim>\<open>Ending\s*Balance.*?\$([\d,]+(?:\.\d{2})?)\<close> (IGNORECASE, DOTALL)\<close>

definition b2_balance :: regex where
  "b2_balance = seqs [str ''Ending'', Star Space, str ''Balance'', Rep 0 None False AnyChar,
                      Lit (ch CHR ''$''), Grp 1 amount]"

text \<open>\<^verbatim>\<open>Primary\s*Account\s*Number[:\s#]*([0-9\s]+)\<close>\<close>

definition b2_primary :: regex where
  "b2_primary = seqs [str ''Primary'', Star Space, str ''Account'', Star Space, str ''Number'',
                      Star (Cls [CChar (ch CHR '':''), CSpace, CChar (ch CHR ''#'')]),
                      Grp 1 (Plus (Cls [CRange (ch CHR ''0'') (ch CHR ''9''), CSpace]))]"

text \<open>\<^verbatim>\<open>Account\s*[#No\.]?\s*[:#]*\s*([0-9\s]{6,})\<close>\<close>

definition b2_account :: regex where
  "b2_account = seqs [str ''Account'', Star Space,
                      Opt (Cls [CChar (ch CHR ''#''), CChar (ch CHR ''N''), CChar (ch CHR ''o''),
                                CChar (ch CHR ''.'')]),
                      Star Space, Star (Cls [CChar (ch CHR '':''), CChar (ch CHR ''#'')]), Star Space,
                      Grp 1 (Rep 6 None True (Cls [CRange (ch CHR ''0'') (ch CHR ''9''), CSpace]))]"

text \<open>\<^verbatim>\<open>Statement\s*Date[:\s]*([A-Za-z]+\s+\d{1,2},\s*\d{4})\<close>\<close>

definition b2_statement :: regex where
  "b2_statement = seqs [str ''Statement'', Star Space, str ''Date'', colon_space,
                        Grp 1 (seqs [Plus (Cls [CRange (ch CHR ''A'') (ch CHR ''Z''),
                                                CRange (ch CHR ''a'') (ch CHR ''z'')]),
                                     Plus Space, Rep 1 (Some 2) True Digit, Lit (ch CHR '',''),
                                     Star Space, Rep 4 (Some 4) True Digit])]"

definition parse_bank_2 :: "unicode_db \<Rightarrow> ustring \<Rightarrow> exn_kind + fields" where
  "parse_bank_2 U text =
     (let out = empty_fields
      in bind_res (search_into U text b2_balance 1 (cleaned U) ''total_balance'' out) (\<lambda>out.
         bind_res (group_into text
                     (case re_search b2_primary U True text of
                        None \<Rightarrow> re_search b2_account U True text
                      | Some a \<Rightarrow> Some a)
                     1 (last4_of U) ''last4'' out) (\<lambda>out.
         search_into U text b2_statement 1 (stripped U) ''statement_closing_date'' out)))"

subsection \<open>Bank 3\<close>

text \<open>\<^verbatim>\<open>(?:Your\s+)?Total\s+Amount\s+Due\<close>, followed by \<^verbatim>\<open>\b\<close> in the label.\<close>

definition b3_total :: regex where
  "b3_total = seqs [Opt (Seq (str ''Your'') (Plus Space)), str ''Total'', Plus Space, str ''Amount'',
                    Plus Space, str ''Due'']"

definition b3_total_label :: regex where
  "b3_total_label = Seq b3_total WordB"

text \<open>
  \<^verbatim>\<open>(?:Your\s+)?Total\s+Amount\s+Due[\s\S]{0,60}?([Rr]?\s*[\d,]+(?:\.\d{2})?)\<close> with U+20B9 in
  place of \<open>R\<close>.
\<close>

definition b3_total_loose :: regex where
  "b3_total_loose = seqs [b3_total, Rep 0 (Some 60) False (Cls [CSpace, CNotSpace]),
                          Grp 1 (seqs [Opt (Cls [CChar RUPEE, CChar (ch CHR ''r'')]), Star Space,
                                       amount])]"

text \<open>\<^verbatim>\<open>(?:Payment\s+)?Due\s*Date\s*:?\s*(?:\n|\s){0,20}?([0-9]{1,2}/[0-9]{1,2}/[0-9]{2,4})\<close>\<close>

definition b3_due :: regex where
  "b3_due = seqs [Opt (Seq (str ''Payment'') (Plus Space)), str ''Due'', Star Space, str ''Date'',
                  Star Space, Opt (Lit (ch CHR '':'')), Star Space,
                  Rep 0 (Some 20) False (Alt (Lit NL) Space), slash_date]"

text \<open>\<^verbatim>\<open>Minimum\s+Amount\s+Due\b\<close>\<close>

definition b3_minimum_label :: regex where
  "b3_minimum_label = seqs [str ''Minimum'', Plus Space, str ''Amount'', Plus Space, str ''Due'', WordB]"

text \<open>\<^verbatim>\<open>Card\s*Number\s*:?\s*([0-9Xx\s]+)\<close>\<close>

definition b3_card :: regex where
  "b3_card = seqs [str ''Card'', Star Space, str ''Number'', Star Space, Opt (Lit (ch CHR '':'')),
                   Star Space,
                   Grp 1 (Plus (Cls [CRange (ch CHR ''0'') (ch CHR ''9''), CChar (ch CHR ''X''),
                                     CChar (ch CHR ''x''), CSpace]))]"

text \<open>\<^verbatim>\<open>Statement\s*Date\s*:?\s*([0-9]{1,2}/[0-9]{1,2}/[0-9]{2,4})\<close>\<close>

definition b3_statement :: regex where
  "b3_statement = seqs [str ''Statement'', Star Space, str ''Date'', Star Space,
                        Opt (Lit (ch CHR '':'')), Star Space, slash_date]"

text \<open>
  The total: the windowed search first; only when it gives nothing (\<open>None\<close> or an empty
  string) the looser search over the whole text.
\<close>

definition b3_balance_into :: "unicode_db \<Rightarrow> ustring \<Rightarrow> fields \<Rightarrow> exn_kind + fields" where
  "b3_balance_into U text out =
     bind_res (find_value_after_label U text b3_total_label rupee_amount 80) (\<lambda>v.
       case (if truthy v then v else None) of
         Some x \<Rightarrow> Inr (out(''total_balance'' \<mapsto> Some (clean_amount U x)))
       | None \<Rightarrow> search_into U text b3_total_loose 1 (cleaned U) ''total_balance'' out)"

definition parse_bank_3 :: "unicode_db \<Rightarrow> ustring \<Rightarrow> exn_kind + fields" where
  "parse_bank_3 U text =
     (let out = empty_fields
      in bind_res (b3_balance_into U text out) (\<lambda>out.
         bind_res (search_into U text b3_due 1 as_is ''payment_due_date'' out) (\<lambda>out.
         bind_res (label_into U text b3_minimum_label rupee_amount 80 (clean_amount U)
                     ''minimum_payment'' out) (\<lambda>out.
         bind_res (search_into U text b3_card 1 (last4_of U) ''last4'' out) (\<lambda>out.
         search_into U text b3_statement 1 as_is ''statement_closing_date'' out)))))"

subsection \<open>Bank 4\<close>

text \<open>\<^verbatim>\<open>NEW\s+BALANCE\b\<close> and \<^verbatim>\<open>=\s*New\s*Balance\b\<close>\<close>

definition b4_new_balance :: regex where
  "b4_new_balance = seqs [str ''NEW'', Plus Space, str ''BALANCE'', WordB]"

definition b4_eq_balance :: regex where
  "b4_eq_balance = seqs [Lit (ch CHR ''=''), Star Space, str ''New'', Star Space, str ''Balance'', WordB]"

text \<open>\<^verbatim>\<open>PAYMENT\s*DUE\s*DATE\s*\n?\s*(\d{1,2}/\d{1,2}/\d{2,4})\<close>\<close>

definition b4_due :: regex where
  "b4_due = seqs [str ''PAYMENT'', Star Space, str ''DUE'', Star Space, str ''DATE'', Star Space,
                  Opt (Lit NL), Star Space, slash_date_d]"

text \<open>\<^verbatim>\<open>MINIMUM\s*PAYMENT\s*DUE\b\<close>\<close>

definition b4_minimum_label :: regex where
  "b4_minimum_label = seqs [str ''MINIMUM'', Star Space, str ''PAYMENT'', Star Space, str ''DUE'', WordB]"

text \<open>\<^verbatim>\<open>ACCOUNT\s*NUMBER\s*\n?\s*([\d\-\s]+)\<close>\<close>

definition b4_account :: regex where
  "b4_account = seqs [str ''ACCOUNT'', Star Space, str ''NUMBER'', Star Space, Opt (Lit NL),
                      Star Space, Grp 1 (Plus (Cls [CDigit, CChar (ch CHR ''-''), CSpace]))]"

text \<open>\<^verbatim>\<open>Closing\s*Date\s*\n?\s*([0-9/\-]+)\<close>\<close>

definition b4_closing :: regex where
  "b4_closing = seqs [str ''Closing'', Star Space, str ''Date'', Star Space, Opt (Lit NL), Star Space,
                      Grp 1 (Plus (Cls [CRange (ch CHR ''0'') (ch CHR ''9''), CChar (ch CHR ''/''),
                                        CChar (ch CHR ''-'')]))]"

definition b4_balance_into :: "unicode_db \<Rightarrow> ustring \<Rightarrow> fields \<Rightarrow> exn_kind + fields" where
  "b4_balance_into U text out =
     bind_res (find_value_after_label U text b4_new_balance dollar_amount 30) (\<lambda>v.
     bind_res (if \<not> truthy v then find_value_after_label U text b4_eq_balance dollar_amount 30
               else Inr v) (\<lambda>v.
       Inr (case (if truthy v then v else None) of
              Some x \<Rightarrow> out(''total_balance'' \<mapsto> Some (clean_amount U x))
            | None \<Rightarrow> out)))"

definition parse_bank_4 :: "unicode_db \<Rightarrow> ustring \<Rightarrow> exn_kind + fields" where
  "parse_bank_4 U text =
     (let out = empty_fields
      in bind_res (b4_balance_into U text out) (\<lambda>out.
         bind_res (search_into U text b4_due 1 as_is ''payment_due_date'' out) (\<lambda>out.
         bind_res (label_into U text b4_minimum_label dollar_amount 40 (clean_amount U)
                     ''minimum_payment'' out) (\<lambda>out.
         bind_res (search_into U text b4_account 1 (last4_of U) ''last4'' out) (\<lambda>out.
         search_into U text b4_closing 1 as_is ''statement_closing_date'' out)))))"

subsection \<open>Bank 5\<close>

text \<open>\<^verbatim>\<open>Total\s*Amount\s*Due\b\<close>, \<^verbatim>\<open>Payment\s*Due\s*Date\b\<close>, \<^verbatim>\<open>Minimum\s*Amount\s*Due\b\<close>\<close>

definition b5_total_label :: regex where
  "b5_total_label = seqs [str ''Total'', Star Space, str ''Amount'', Star Space, str ''Due'', WordB]"

definition b5_due_label :: regex where
  "b5_due_label = seqs [str ''Payment'', Star Space, str ''Due'', Star Space, str ''Date'', WordB]"

definition b5_minimum_label :: regex where
  "b5_minimum_label = seqs [str ''Minimum'', Star Space, str ''Amount'', Star Space, str ''Due'', WordB]"

text \<open>\<^verbatim>\<open>Account\s*Number\s*:?\s*([\d\s]+)\<close>\<close>

definition b5_account :: regex where
  "b5_account = seqs [str ''Account'', Star Space, str ''Number'', Star Space,
                      Opt (Lit (ch CHR '':'')), Star Space, Grp 1 (Plus (Cls [CDigit, CSpace]))]"

text \<open>\<^verbatim>\<open>Statement\s*Date\s*\n?\s*([0-9]{1,2}/[0-9]{1,2}/[0-9]{2,4})\<close>\<close>

definition b5_statement :: regex where
  "b5_statement = seqs [str ''Statement'', Star Space, str ''Date'', Star Space, Opt (Lit NL),
                        Star Space, slash_date]"

definition parse_bank_5 :: "unicode_db \<Rightarrow> ustring \<Rightarrow> exn_kind + fields" where
  "parse_bank_5 U text =
     (let out = empty_fields
      in bind_res (label_into U text b5_total_label rupee_amount 160 (clean_amount U)
                     ''total_balance'' out) (\<lambda>out.
         bind_res (label_into U text b5_due_label slash_date 160 (\<lambda>v. v)
                     ''payment_due_date'' out) (\<lambda>out.
         bind_res (label_into U text b5_minimum_label rupee_amount 160 (clean_amount U)
                     ''minimum_payment'' out) (\<lambda>out.
         bind_res (search_into U text b5_account 1 (last4_of U) ''last4'' out) (\<lambda>out.
         search_into U text b5_statement 1 as_is ''statement_closing_date'' out)))))"

subsection \<open>Detection\<close>

definition detect_bank :: "unicode_db \<Rightarrow> ustring \<Rightarrow> ustring option" where
  "detect_bank U text =
     (let t = u_lower U text
      in if sublist (ascii ''building blocks student handout'') t then Some (ascii ''bank1'')
         else if sublist (ascii ''connections checking'') t \<or> sublist (ascii ''1000 walnut'') t
              then Some (ascii ''bank2'')
         else if sublist (ascii ''icici'') t \<or> sublist (ascii ''your total amount due'') t
              then Some (ascii ''bank3'')
         else if sublist (ascii ''sample credit card statement'') t
                 \<or> sublist (ascii ''great lakes higher education'') t
              then Some (ascii ''bank4'')
         else if sublist (ascii ''idfcbank'') t \<or> sublist (ascii ''customer relationship no.'') t
              then Some (ascii ''bank5'')
         else None)"

section \<open>orchestrator.py\<close>

text \<open>
  \<open>detect_bank(text) or "unknown"\<close>, the dispatch on the bank id, and the dict
  \<open>{"bank": bank, **data}\<close>, in which an entry of \<open>data\<close> wins over the one before it.
\<close>

definition identify_and_parse :: "unicode_db \<Rightarrow> ustring \<Rightarrow> exn_kind + fields" where
  "identify_and_parse U text =
     (let bank = (case detect_bank U text of
                    None \<Rightarrow> ascii ''unknown''
                  | Some b \<Rightarrow> if b \<noteq> [] then b else ascii ''unknown'')
      in bind_res
           (if bank = ascii ''bank1'' then parse_bank_1 U text
            else if bank = ascii ''bank2'' then parse_bank_2 U text
            else if bank = ascii ''bank3'' then parse_bank_3 U text
            else if bank = ascii ''bank4'' then parse_bank_4 U text
            else if bank = ascii ''bank5'' then parse_bank_5 U text
            else Inr empty_fields)
           (\<lambda>data. Inr ([''bank'' \<mapsto> Some bank] ++ data)))"

section \<open>extract.py\<close>

text \<open>
  An exception object: its class, its message and its \<open>__context__\<close>. The two PDF
  libraries are parameters: a module is \<open>None\<close> when its import failed, and otherwise
  gives what opening a path does. A PyMuPDF document says whether it needs a password,
  which passwords it accepts and what \<open>get_text\<close> gives for its pages; a pdfplumber
  document gives what \<open>extract_text\<close> returns for each page (\<open>None\<close> for an image-only
  page).
\<close>

datatype py_exn = Exn exn_kind string "py_exn option"

record fitz_doc =
  needs_pass :: bool
  authenticate :: "ustring \<Rightarrow> bool"
  get_text :: "py_exn + ustring list"

record pdf_libs =
  fitz :: "(ustring \<Rightarrow> py_exn + fitz_doc) option"
  pdfplumber :: "(ustring \<Rightarrow> ustring option \<Rightarrow> py_exn + ustring option list) option"

datatype log_entry = Debug string py_exn | Warning string

fun join :: "ustring \<Rightarrow> ustring list \<Rightarrow> ustring" where
  "join sep [] = []"
| "join sep [x] = x"
| "join sep (x # xs) = x @ sep @ join sep xs"

definition extract_with_pymupdf ::
  "unicode_db \<Rightarrow> pdf_libs \<Rightarrow> ustring \<Rightarrow> ustring \<Rightarrow> py_exn + ustring" where
  "extract_with_pymupdf U L pdf_path password =
     (case fitz L of
        None \<Rightarrow> Inl (Exn ImportError ''PyMuPDF (fitz) is not installed'' None)
      | Some fitz_open \<Rightarrow>
          (case fitz_open pdf_path of
             Inl e \<Rightarrow> Inl e
           | Inr doc \<Rightarrow>
               if needs_pass doc \<and> \<not> authenticate doc password
               then Inl (Exn PermissionError ''Incorrect password for encrypted PDF (PyMuPDF)'' None)
               else (case get_text doc of
                       Inl e \<Rightarrow> Inl e
                     | Inr pages \<Rightarrow> Inr (py_strip U (join [NL, NL] pages)))))"

definition extract_with_pdfplumber ::
  "unicode_db \<Rightarrow> pdf_libs \<Rightarrow> ustring \<Rightarrow> ustring \<Rightarrow> py_exn + ustring" where
  "extract_with_pdfplumber U L pdf_path password =
     (case pdfplumber L of
        None \<Rightarrow> Inl (Exn ImportError ''pdfplumber is not installed'' None)
      | Some plumber_open \<Rightarrow>
          (case plumber_open pdf_path (if password \<noteq> [] then Some password else None) of
             Inl e \<Rightarrow> Inl e
           | Inr pages \<Rightarrow>
               Inr (py_strip U (join [NL, NL]
                      (map (\<lambda>txt. case txt of None \<Rightarrow> [] | Some t \<Rightarrow> t) pages)))))"

definition extraction_failed :: py_exn where
  "extraction_failed =
     Exn ValueError ''Failed to extract text from PDF using both PyMuPDF and pdfplumber.'' None"

text \<open>
  \<open>extract_text\<close> returns the text or raises, and writes to the module's logger; the
  result is paired with the log records in the order they are written.
\<close>

definition pdfplumber_fallback ::
  "unicode_db \<Rightarrow> pdf_libs \<Rightarrow> ustring \<Rightarrow> ustring \<Rightarrow> log_entry list \<Rightarrow>
   (py_exn + ustring) \<times> log_entry list" where
  "pdfplumber_fallback U L pdf_path password log =
     (case extract_with_pdfplumber U L pdf_path password of
        Inr text \<Rightarrow> if text \<noteq> [] then (Inr text, log) else (Inl extraction_failed, log)
      | Inl e \<Rightarrow> (Inl extraction_failed, log @ [Debug ''pdfplumber extraction failed: %s'' e]))"

definition extract_text ::
  "unicode_db \<Rightarrow> pdf_libs \<Rightarrow> ustring \<Rightarrow> ustring \<Rightarrow> (py_exn + ustring) \<times> log_entry list" where
  "extract_text U L pdf_path password =
     (case extract_with_pymupdf U L pdf_path password of
        Inr text \<Rightarrow>
          if text \<noteq> [] then (Inr text, [])
          else pdfplumber_fallback U L pdf_path password
                 [Warning ''PyMuPDF returned empty text; attempting pdfplumber fallback...'']
      | Inl e \<Rightarrow>
          pdfplumber_fallback U L pdf_path password [Debug ''PyMuPDF extraction failed: %s'' e])"

text \<open>A call of an extraction method is usable when it returned text that is not empty.\<close>

definition usable :: "py_exn + ustring \<Rightarrow> bool" where
  "usable r = (case r of Inl e \<Rightarrow> False | Inr t \<Rightarrow> t \<noteq> [])"

subsection \<open>Three installations, for evaluating the model\<close>

text \<open>
  Neither library installed; a document that needs a password and accepts none, which
  pdfplumber refuses to open; and a document whose pages hold no text.
\<close>

definition libs_absent :: pdf_libs where
  "libs_absent = \<lparr> fitz = None, pdfplumber = None \<rparr>"

definition locked_doc :: fitz_doc where
  "locked_doc = \<lparr> needs_pass = True, authenticate = (\<lambda>pw. False),
                   get_text = Inr [ascii ''Statement''] \<rparr>"

definition libs_locked :: pdf_libs where
  "libs_locked = \<lparr> fitz = Some (\<lambda>path. Inr locked_doc),
                    pdfplumber = Some (\<lambda>path pw. Inl (Exn LibraryError ''PDFPasswordIncorrect'' None)) \<rparr>"

definition blank_doc :: fitz_doc where
  "blank_doc = \<lparr> needs_pass = False, authenticate = (\<lambda>pw. True), get_text = Inr [[], []] \<rparr>"

definition libs_blank :: pdf_libs where
  "libs_blank = \<lparr> fitz = Some (\<lambda>path. Inr blank_doc),
                   pdfplumber = Some (\<lambda>path pw. Inr [None, None]) \<rparr>"

section \<open>Notions used to state the properties\<close>

text \<open>A pattern sets group \<open>k\<close> when every match of it gives group \<open>k\<close> a span.\<close>

fun sets_group :: "nat \<Rightarrow> regex \<Rightarrow> bool" where
  "sets_group k (Grp j r) = (k = j \<or> sets_group k r)"
| "sets_group k (Seq a b) = (sets_group k a \<or> sets_group k b)"
| "sets_group k (Alt a b) = (sets_group k a \<and> sets_group k b)"
| "sets_group k (Rep lo hi g r) = (0 < lo \<and> sets_group k r)"
| "sets_group k r = False"

definition has_cap :: "nat \<Rightarrow> mstate \<Rightarrow> bool" where
  "has_cap k s = (map_of (ms_caps s) k \<noteq> None)"

text \<open>A step of a routine keeps the key set \<open>D\<close> when it does not raise and leaves the keys as they are.\<close>

definition keeps :: "string set \<Rightarrow> (fields \<Rightarrow> exn_kind + fields) \<Rightarrow> bool" where
  "keeps D f = (\<forall>out. dom out = D \<longrightarrow> (\<exists>out'. f out = Inr out' \<and> dom out' = D))"

text \<open>
  The classifier as the table the specification describes: the rules in the order of the
  source's tests, each with its cue phrases; the first rule with a cue in the text wins.
\<close>

definition cue_table :: "(string list \<times> string) list" where
  "cue_table =
     [([''building blocks student handout''], ''bank1''),
      ([''connections checking'', ''1000 walnut''], ''bank2''),
      ([''icici'', ''your total amount due''], ''bank3''),
      ([''sample credit card statement'', ''great lakes higher education''], ''bank4''),
      ([''idfcbank'', ''customer relationship no.''], ''bank5'')]"

definition hits :: "ustring \<Rightarrow> string list \<times> string \<Rightarrow> bool" where
  "hits t rule = list_ex (\<lambda>cue. sublist (ascii cue) t) (fst rule)"

definition first_hit :: "ustring \<Rightarrow> ustring option" where
  "first_hit t = map_option (\<lambda>rule. ascii (snd rule)) (find (hits t) cue_table)"

definition two_banks_text :: ustring where
  "two_banks_text = ascii ''Sample Credit Card Statement - Connections Checking''"

text \<open>Membership of a character in a class \<open>[...]\<close>.\<close>

definition class_ok :: "unicode_db \<Rightarrow> bool \<Rightarrow> citem list \<Rightarrow> nat \<Rightarrow> bool" where
  "class_ok U ic its d = list_ex (\<lambda>it. item_ok U ic it d) its"

text \<open>
  The matcher's state at offset \<open>p\<close> of a text before anything is captured; \<open>reaches\<close>
  relates a state to a later one of the same attempt; a state's captures are in order
  when each span ends at or before the state's offset.
\<close>

definition start_at :: "ustring \<Rightarrow> nat \<Rightarrow> mstate" where
  "start_at text p =
     \<lparr>ms_pos = p, ms_prev = (if p = 0 then None else Some (text ! (p - 1))),
      ms_rest = drop p text, ms_caps = []\<rparr>"

definition reaches :: "mstate \<Rightarrow> mstate \<Rightarrow> bool" where
  "reaches s s' =
     (\<exists>k. k \<le> length (ms_rest s) \<and> ms_rest s' = drop k (ms_rest s) \<and> ms_pos s' = ms_pos s + k)"

definition caps_ok :: "mstate \<Rightarrow> bool" where
  "caps_ok s = list_all (\<lambda>(k, b, e). b \<le> e \<and> e \<le> ms_pos s) (ms_caps s)"

text \<open>A pattern is plain when it has no assertion (\<open>^\<close>, \<open>\b\<close>): it reads only what it consumes.\<close>

fun plain :: "regex \<Rightarrow> bool" where
  "plain Bol = False"
| "plain WordB = False"
| "plain (Seq a b) = (plain a \<and> plain b)"
| "plain (Alt a b) = (plain a \<and> plain b)"
| "plain (Rep lo hi g r) = plain r"
| "plain (Grp k r) = plain r"
| "plain r = True"

text \<open>A text in which the only amount after the label stands beyond a window of five.\<close>

definition far_text :: ustring where
  "far_text = ascii ''NEW BALANCE       99.00''"

text \<open>A statement of bank 1 that shows its balance twice.\<close>

definition two_balances :: ustring where
  "two_balances = ascii ''New Balance $100.00 Payment Due Date 01/15/2024 New Balance: $250.00''"

text \<open>
  The state after the matcher has consumed the characters \<open>w\<close>; a list of successes
  prefers the success at its head.
\<close>

definition moved :: "mstate \<Rightarrow> ustring \<Rightarrow> mstate" where
  "moved s w =
     \<lparr>ms_pos = ms_pos s + length w, ms_prev = (if w = [] then ms_prev s else Some (last w)),
      ms_rest = drop (length w) (ms_rest s), ms_caps = ms_caps s\<rparr>"

definition prefers :: "mstate list \<Rightarrow> mstate \<Rightarrow> bool" where
  "prefers xs s = (\<exists>ss. xs = s # ss)"

text \<open>
  What the theorems about concrete characters assume of the Unicode tables: on ASCII they
  say what ASCII says; two different characters that match each other without regard
  to case are not whitespace; the en dash and the minus sign are not whitespace, and
  nothing else matches the en dash.
\<close>

definition tables_ok :: "unicode_db \<Rightarrow> bool" where
  "tables_ok U =
     ((\<forall>c<128. u_isspace U c = ascii_space c \<and> u_isalnum U c = (ascii_alpha c \<or> ascii_digit c))
      \<and> (\<forall>c<128. \<forall>d<128. c \<noteq> d \<longrightarrow> u_caseless U c d = (ascii_lower_char c = ascii_lower_char d))
      \<and> (\<forall>c d. c \<noteq> d \<and> u_caseless U c d \<longrightarrow> \<not> u_isspace U d)
      \<and> \<not> u_isspace U ENDASH \<and> \<not> u_isspace U UMINUS
      \<and> (\<forall>c. c \<noteq> ENDASH \<longrightarrow> \<not> u_caseless U c ENDASH))"

text \<open>
  The characters of an amount (digits, grouping commas, the decimal point, a sign), the
  characters \<open>_clean_amount\<close> strips in front of it, and the replacement of the minus
  sign U+2212.
\<close>

definition amount_char :: "nat \<Rightarrow> bool" where
  "amount_char d = (ascii_digit d \<or> d = ch CHR '','' \<or> d = ch CHR ''.'' \<or> d = ch CHR ''-'' \<or> d = UMINUS)"

definition lead_char :: "unicode_db \<Rightarrow> nat \<Rightarrow> bool" where
  "lead_char U d = (d = RUPEE \<or> d = ch CHR ''r'' \<or> u_isspace U d)"

definition ascii_minus :: "nat \<Rightarrow> nat" where
  "ascii_minus d = (if d = UMINUS then ch CHR ''-'' else d)"


section \<open>Properties of extract.py\<close>

lemma fst_fallback:
  "fst (pdfplumber_fallback U L p pw log) =
     (if usable (extract_with_pdfplumber U L p pw) then extract_with_pdfplumber U L p pw
      else Inl extraction_failed)"
  by (simp add: pdfplumber_fallback_def usable_def split: sum.splits)

lemma snd_fallback:
  "snd (pdfplumber_fallback U L p pw log) =
     log @ (case extract_with_pdfplumber U L p pw of
              Inl e \<Rightarrow> [Debug ''pdfplumber extraction failed: %s'' e]
            | Inr t \<Rightarrow> [])"
  by (simp add: pdfplumber_fallback_def split: sum.splits)

text \<open>
  C9 (as amended). \<open>extract_text\<close> tries PyMuPDF first: when that call returns text that
  is not empty, this text is the result, nothing is logged and pdfplumber plays no part.
  When that call raises or returns the empty string, pdfplumber is tried and decides the
  result. \<open>extract_text\<close> raises if and only if neither call is usable, and what it raises
  is always the same \<open>ValueError\<close>: a fixed message, no \<open>__context__\<close>; it does not carry
  the two underlying causes. The causes are written to the log only: after an unusable
  first call the log holds one record for PyMuPDF (a debug record with the exception it
  raised, or the warning that its text was empty) and then, when pdfplumber raised, a
  debug record with that exception; when both calls raise, the result is the fixed
  \<open>ValueError\<close> with exactly the two debug records.
\<close>

theorem extract_text_two_stage:
  "(usable (extract_with_pymupdf U L p pw) \<longrightarrow>
      extract_text U L p pw = (extract_with_pymupdf U L p pw, [])
      \<and> extract_text U (L\<lparr>pdfplumber := X\<rparr>) p pw = extract_text U L p pw)
   \<and> (\<not> usable (extract_with_pymupdf U L p pw) \<longrightarrow>
        fst (extract_text U L p pw) =
          (if usable (extract_with_pdfplumber U L p pw) then extract_with_pdfplumber U L p pw
           else Inl extraction_failed))
   \<and> ((\<exists>e. fst (extract_text U L p pw) = Inl e) \<longleftrightarrow>
        \<not> usable (extract_with_pymupdf U L p pw) \<and> \<not> usable (extract_with_pdfplumber U L p pw))
   \<and> (\<forall>e. fst (extract_text U L p pw) = Inl e \<longrightarrow>
        e = Exn ValueError ''Failed to extract text from PDF using both PyMuPDF and pdfplumber.'' None)
   \<and> (\<not> usable (extract_with_pymupdf U L p pw) \<longrightarrow>
        snd (extract_text U L p pw) =
          (case extract_with_pymupdf U L p pw of
             Inl e \<Rightarrow> [Debug ''PyMuPDF extraction failed: %s'' e]
           | Inr t \<Rightarrow> [Warning ''PyMuPDF returned empty text; attempting pdfplumber fallback...''])
          @ (case extract_with_pdfplumber U L p pw of
               Inl e \<Rightarrow> [Debug ''pdfplumber extraction failed: %s'' e]
             | Inr t \<Rightarrow> []))
   \<and> (\<forall>e1 e2. extract_with_pymupdf U L p pw = Inl e1 \<and> extract_with_pdfplumber U L p pw = Inl e2 \<longrightarrow>
        extract_text U L p pw =
          (Inl (Exn ValueError ''Failed to extract text from PDF using both PyMuPDF and pdfplumber.'' None),
           [Debug ''PyMuPDF extraction failed: %s'' e1, Debug ''pdfplumber extraction failed: %s'' e2]))"
proof -
  have same: "extract_with_pymupdf U (L\<lparr>pdfplumber := X\<rparr>) p pw = extract_with_pymupdf U L p pw"
    by (simp add: extract_with_pymupdf_def)
  have a: "usable (extract_with_pymupdf U L p pw) \<Longrightarrow>
      extract_text U L p pw = (extract_with_pymupdf U L p pw, [])" for L
    by (auto simp: extract_text_def usable_def split: sum.splits)
  have b: "\<not> usable (extract_with_pymupdf U L p pw) \<Longrightarrow>
        fst (extract_text U L p pw) =
          (if usable (extract_with_pdfplumber U L p pw) then extract_with_pdfplumber U L p pw
           else Inl extraction_failed)"
    by (auto simp: extract_text_def usable_def fst_fallback split: sum.splits)
  have c: "(\<exists>e. fst (extract_text U L p pw) = Inl e) \<longleftrightarrow>
        \<not> usable (extract_with_pymupdf U L p pw) \<and> \<not> usable (extract_with_pdfplumber U L p pw)"
  proof (cases "usable (extract_with_pymupdf U L p pw)")
    case True
    then show ?thesis using a[OF True] by (auto simp: usable_def split: sum.splits)
  next
    case False
    then show ?thesis using b[OF False] by (auto simp: usable_def split: sum.splits)
  qed
  have d: "fst (extract_text U L p pw) = Inl e \<Longrightarrow> e = extraction_failed" for e
  proof (cases "usable (extract_with_pymupdf U L p pw)")
    case True
    assume "fst (extract_text U L p pw) = Inl e"
    then show ?thesis using a[OF True] True by (auto simp: usable_def split: sum.splits)
  next
    case False
    assume "fst (extract_text U L p pw) = Inl e"
    then show ?thesis using b[OF False] by (auto simp: usable_def split: sum.splits if_splits)
  qed
  have l: "\<not> usable (extract_with_pymupdf U L p pw) \<Longrightarrow>
        snd (extract_text U L p pw) =
          (case extract_with_pymupdf U L p pw of
             Inl e \<Rightarrow> [Debug ''PyMuPDF extraction failed: %s'' e]
           | Inr t \<Rightarrow> [Warning ''PyMuPDF returned empty text; attempting pdfplumber fallback...''])
          @ (case extract_with_pdfplumber U L p pw of
               Inl e \<Rightarrow> [Debug ''pdfplumber extraction failed: %s'' e]
             | Inr t \<Rightarrow> [])"
    by (auto simp: extract_text_def usable_def snd_fallback split: sum.splits)
  have both: "extract_text U L p pw =
          (Inl extraction_failed,
           [Debug ''PyMuPDF extraction failed: %s'' e1, Debug ''pdfplumber extraction failed: %s'' e2])"
    if "extract_with_pymupdf U L p pw = Inl e1" "extract_with_pdfplumber U L p pw = Inl e2" for e1 e2
    using that by (simp add: extract_text_def pdfplumber_fallback_def)
  have a': "usable (extract_with_pymupdf U L p pw) \<longrightarrow>
      extract_text U L p pw = (extract_with_pymupdf U L p pw, [])
      \<and> extract_text U (L\<lparr>pdfplumber := X\<rparr>) p pw = extract_text U L p pw"
    using a[of L] a[of "L\<lparr>pdfplumber := X\<rparr>"] same by simp
  have d': "\<forall>e. fst (extract_text U L p pw) = Inl e \<longrightarrow>
        e = Exn ValueError ''Failed to extract text from PDF using both PyMuPDF and pdfplumber.'' None"
    using d by (simp add: extraction_failed_def)
  have both': "\<forall>e1 e2. extract_with_pymupdf U L p pw = Inl e1 \<and> extract_with_pdfplumber U L p pw = Inl e2 \<longrightarrow>
        extract_text U L p pw =
          (Inl (Exn ValueError ''Failed to extract text from PDF using both PyMuPDF and pdfplumber.'' None),
           [Debug ''PyMuPDF extraction failed: %s'' e1, Debug ''pdfplumber extraction failed: %s'' e2])"
    using both by (simp add: extraction_failed_def)
  from a' b c d' l both' show ?thesis by blast
qed

theorem extract_text_two_stage_witness:
  "\<not> usable (extract_with_pymupdf ascii_db libs_locked (ascii ''a.pdf'') (ascii ''pw''))
   \<and> \<not> usable (extract_with_pdfplumber ascii_db libs_locked (ascii ''a.pdf'') (ascii ''pw''))
   \<and> extract_text ascii_db libs_locked (ascii ''a.pdf'') (ascii ''pw'') =
       (Inl (Exn ValueError ''Failed to extract text from PDF using both PyMuPDF and pdfplumber.'' None),
        [Debug ''PyMuPDF extraction failed: %s''
           (Exn PermissionError ''Incorrect password for encrypted PDF (PyMuPDF)'' None),
         Debug ''pdfplumber extraction failed: %s'' (Exn LibraryError ''PDFPasswordIncorrect'' None)])"
proof -
  have p: "extract_with_pymupdf ascii_db libs_locked (ascii ''a.pdf'') (ascii ''pw'')
      = Inl (Exn PermissionError ''Incorrect password for encrypted PDF (PyMuPDF)'' None)"
    by (simp add: extract_with_pymupdf_def libs_locked_def locked_doc_def)
  have s: "extract_with_pdfplumber ascii_db libs_locked (ascii ''a.pdf'') (ascii ''pw'')
      = Inl (Exn LibraryError ''PDFPasswordIncorrect'' None)"
    by (simp add: extract_with_pdfplumber_def libs_locked_def)
  have 1: "\<not> usable (extract_with_pymupdf ascii_db libs_locked (ascii ''a.pdf'') (ascii ''pw''))"
    by (simp add: p usable_def)
  have 2: "\<not> usable (extract_with_pdfplumber ascii_db libs_locked (ascii ''a.pdf'') (ascii ''pw''))"
    by (simp add: s usable_def)
  from extract_text_two_stage [of ascii_db libs_locked "ascii ''a.pdf''" "ascii ''pw''" None]
  have "\<forall>e1 e2. extract_with_pymupdf ascii_db libs_locked (ascii ''a.pdf'') (ascii ''pw'') = Inl e1
       \<and> extract_with_pdfplumber ascii_db libs_locked (ascii ''a.pdf'') (ascii ''pw'') = Inl e2 \<longrightarrow>
        extract_text ascii_db libs_locked (ascii ''a.pdf'') (ascii ''pw'') =
          (Inl (Exn ValueError ''Failed to extract text from PDF using both PyMuPDF and pdfplumber.'' None),
           [Debug ''PyMuPDF extraction failed: %s'' e1, Debug ''pdfplumber extraction failed: %s'' e2])"
    by (elim conjE)
  with p s have "extract_text ascii_db libs_locked (ascii ''a.pdf'') (ascii ''pw'') =
       (Inl (Exn ValueError ''Failed to extract text from PDF using both PyMuPDF and pdfplumber.'' None),
        [Debug ''PyMuPDF extraction failed: %s''
           (Exn PermissionError ''Incorrect password for encrypted PDF (PyMuPDF)'' None),
         Debug ''pdfplumber extraction failed: %s'' (Exn LibraryError ''PDFPasswordIncorrect'' None)])"
    by blast
  with 1 2 show ?thesis by blast
qed

text \<open>
  C9 as stated fails: with neither library installed the two causes are two import
  errors, with the locked document they are a rejected password and pdfplumber's own
  error, and \<open>extract_text\<close> raises the very same exception in both cases.
\<close>

theorem extract_text_causes_counterexample:
  "extract_with_pymupdf ascii_db libs_absent (ascii ''a.pdf'') [] =
     Inl (Exn ImportError ''PyMuPDF (fitz) is not installed'' None)
   \<and> extract_with_pymupdf ascii_db libs_locked (ascii ''a.pdf'') [] =
     Inl (Exn PermissionError ''Incorrect password for encrypted PDF (PyMuPDF)'' None)
   \<and> fst (extract_text ascii_db libs_absent (ascii ''a.pdf'') []) =
     Inl (Exn ValueError ''Failed to extract text from PDF using both PyMuPDF and pdfplumber.'' None)
   \<and> fst (extract_text ascii_db libs_locked (ascii ''a.pdf'') []) =
     Inl (Exn ValueError ''Failed to extract text from PDF using both PyMuPDF and pdfplumber.'' None)"
  by (simp add: extract_text_def pdfplumber_fallback_def extract_with_pymupdf_def
      extract_with_pdfplumber_def libs_locked_def libs_absent_def locked_doc_def
      extraction_failed_def)

text \<open>
  C10 (as amended). For a document that needs a password and rejects the one given,
  \<open>_extract_with_pymupdf\<close> raises \<open>PermissionError\<close>, which is not the empty text of a
  document without content. \<open>extract_text\<close> catches it and goes on to pdfplumber, which
  decides the result: a failure of \<open>extract_text\<close> is the generic \<open>ValueError\<close>, and the
  rejected password is left only in the first debug record of the log.
\<close>

theorem rejected_password_swallowed:
  assumes "fitz L = Some fitz_open" and "fitz_open p = Inr doc"
    and "needs_pass doc" and "\<not> authenticate doc pw"
  shows "extract_with_pymupdf U L p pw =
           Inl (Exn PermissionError ''Incorrect password for encrypted PDF (PyMuPDF)'' None)
         \<and> extract_with_pymupdf U L p pw \<noteq> Inr []
         \<and> fst (extract_text U L p pw) =
             (if usable (extract_with_pdfplumber U L p pw) then extract_with_pdfplumber U L p pw
              else Inl extraction_failed)
         \<and> fst (extract_text U L p pw) \<noteq> extract_with_pymupdf U L p pw
         \<and> hd (snd (extract_text U L p pw)) =
             Debug ''PyMuPDF extraction failed: %s''
               (Exn PermissionError ''Incorrect password for encrypted PDF (PyMuPDF)'' None)"
proof -
  have p: "extract_with_pymupdf U L p pw =
           Inl (Exn PermissionError ''Incorrect password for encrypted PDF (PyMuPDF)'' None)"
    using assms by (simp add: extract_with_pymupdf_def)
  have e: "extract_text U L p pw = pdfplumber_fallback U L p pw
     [Debug ''PyMuPDF extraction failed: %s''
        (Exn PermissionError ''Incorrect password for encrypted PDF (PyMuPDF)'' None)]"
    by (simp add: extract_text_def p)
  have h: "hd (snd (pdfplumber_fallback U L p pw (x # xs))) = x" for x xs
    by (simp add: pdfplumber_fallback_def split: sum.splits)
  show ?thesis
    by (simp add: p e fst_fallback h extraction_failed_def usable_def split: sum.splits)
qed

theorem rejected_password_swallowed_witness:
  "fst (extract_text ascii_db libs_locked (ascii ''a.pdf'') (ascii ''guess'')) = Inl extraction_failed"
proof -
  have 1: "fitz libs_locked = Some (\<lambda>path. Inr locked_doc)"
    by (simp add: libs_locked_def)
  have 2: "(\<lambda>path. Inr locked_doc) (ascii ''a.pdf'') = (Inr locked_doc :: py_exn + fitz_doc)"
    by simp
  have 3: "needs_pass locked_doc" by (simp add: locked_doc_def)
  have 4: "\<not> authenticate locked_doc (ascii ''guess'')" by (simp add: locked_doc_def)
  have 5: "\<not> usable (extract_with_pdfplumber ascii_db libs_locked (ascii ''a.pdf'') (ascii ''guess''))"
    by (simp add: usable_def extract_with_pdfplumber_def libs_locked_def)
  from rejected_password_swallowed [OF 1 2 3 4, of ascii_db] 5 show ?thesis
    by simp
qed

text \<open>
  C10 as stated fails: with the password rejected (and pdfplumber refusing the document
  too) \<open>extract_text\<close> raises the generic \<open>ValueError\<close>, the same exception it raises for
  a document whose pages hold no text.
\<close>

theorem rejected_password_counterexample:
  "extract_with_pymupdf ascii_db libs_locked (ascii ''a.pdf'') (ascii ''guess'') =
     Inl (Exn PermissionError ''Incorrect password for encrypted PDF (PyMuPDF)'' None)
   \<and> fst (extract_text ascii_db libs_locked (ascii ''a.pdf'') (ascii ''guess'')) =
     Inl (Exn ValueError ''Failed to extract text from PDF using both PyMuPDF and pdfplumber.'' None)
   \<and> fst (extract_text ascii_db libs_blank (ascii ''a.pdf'') (ascii ''guess'')) =
     fst (extract_text ascii_db libs_locked (ascii ''a.pdf'') (ascii ''guess''))"
  by (simp add: extract_text_def pdfplumber_fallback_def extract_with_pymupdf_def
      extract_with_pdfplumber_def libs_locked_def libs_blank_def locked_doc_def blank_doc_def
      extraction_failed_def py_strip_def NL_def ascii_db_def ascii_space_def)

section \<open>Properties of the matcher: groups\<close>

lemma step_caps: "s' \<in> set (step P s) \<Longrightarrow> ms_caps s' = ms_caps s"
  by (auto simp: step_def split: list.splits if_splits)

lemma rep_loop_cases:
  "s' \<in> set (rep_loop f lo hi g s) \<longleftrightarrow>
     (if 0 < lo then \<exists>s1 \<in> set (f s). s' \<in> set (rep_loop f (lo - 1) (dec hi) g s1)
      else if hi = Some 0 then s' = s
      else s' = s \<or> (\<exists>s1 \<in> set (f s). length (ms_rest s1) < length (ms_rest s)
                        \<and> s' \<in> set (rep_loop f 0 (dec hi) g s1)))"
  by (subst rep_loop.simps) (auto simp: Let_def)

lemma rep_loop_preserves:
  "(\<And>s s'. s' \<in> set (f s) \<Longrightarrow> Q s \<Longrightarrow> Q s') \<Longrightarrow>
   s' \<in> set (rep_loop f lo hi g s) \<Longrightarrow> Q s \<Longrightarrow> Q s'"
proof (induction f lo hi g s arbitrary: s' rule: rep_loop.induct)
  case (1 f lo hi g s)
  note pres = "1.prems"(1)
  show ?case
  proof (cases "0 < lo")
    case True
    with "1.prems"(2) obtain s1 where s1: "s1 \<in> set (f s)" "s' \<in> set (rep_loop f (lo - 1) (dec hi) g s1)"
      by (subst (asm) rep_loop_cases) auto
    have "Q s1" using pres[OF s1(1)] "1.prems"(3) by simp
    then show ?thesis using "1.IH"(1)[OF True s1(1) pres s1(2)] by simp
  next
    case False
    show ?thesis
    proof (cases "hi = Some 0")
      case True
      with False "1.prems" show ?thesis by (subst (asm) rep_loop_cases) simp
    next
      case hi: False
      from False hi "1.prems"(2) have
        "s' = s \<or> (\<exists>s1 \<in> set (f s). length (ms_rest s1) < length (ms_rest s)
                 \<and> s' \<in> set (rep_loop f 0 (dec hi) g s1))"
        by (subst (asm) rep_loop_cases) simp
      then show ?thesis
      proof
        assume "s' = s" with "1.prems" show ?thesis by simp
      next
        assume "\<exists>s1 \<in> set (f s). length (ms_rest s1) < length (ms_rest s)
                 \<and> s' \<in> set (rep_loop f 0 (dec hi) g s1)"
        then obtain s1 where s1: "s1 \<in> set (f s)" "length (ms_rest s1) < length (ms_rest s)"
          "s' \<in> set (rep_loop f 0 (dec hi) g s1)" by blast
        have q: "Q s1" using pres[OF s1(1)] "1.prems"(3) by simp
        have m: "s1 \<in> set (filter (\<lambda>s'. length (ms_rest s') < length (ms_rest s)) (f s))"
          using s1 by simp
        show ?thesis using "1.IH"(2)[OF False hi m pres s1(3) q] .
      qed
    qed
  qed
qed

lemma rx_run_has_cap:
  "s' \<in> set (rx_run r U ic s) \<Longrightarrow> has_cap k s \<Longrightarrow> has_cap k s'"
proof (induction r arbitrary: s s')
  case (Rep lo hi g r)
  show ?case
    using rep_loop_preserves[of "rx_run r U ic" "has_cap k" s' lo hi g s] Rep by auto
qed (auto simp: has_cap_def dest: step_caps split: if_splits)

lemma rx_run_sets_group:
  "sets_group k r \<Longrightarrow> s' \<in> set (rx_run r U ic s) \<Longrightarrow> has_cap k s'"
proof (induction r arbitrary: s s')
  case (Seq a b)
  from Seq.prems(2) obtain s1 where s1: "s1 \<in> set (rx_run a U ic s)" "s' \<in> set (rx_run b U ic s1)"
    by auto
  from Seq.prems(1) have "sets_group k a \<or> sets_group k b" by simp
  then show ?case
  proof
    assume "sets_group k a"
    then have "has_cap k s1" using Seq.IH(1) s1(1) by blast
    then show ?thesis using rx_run_has_cap s1(2) by blast
  next
    assume "sets_group k b"
    then show ?thesis using Seq.IH(2) s1(2) by blast
  qed
next
  case (Rep lo hi g r)
  then have lo: "0 < lo" and sg: "sets_group k r" by auto
  from Rep.prems(2) lo obtain s1 where s1: "s1 \<in> set (rx_run r U ic s)"
      "s' \<in> set (rep_loop (rx_run r U ic) (lo - 1) (dec hi) g s1)"
    by (auto simp: rep_loop_cases[of s' _ lo])
  have "has_cap k s1" using Rep.IH[OF sg s1(1)] .
  then show ?case
    using rep_loop_preserves[of "rx_run r U ic" "has_cap k" s' "lo - 1" "dec hi" g s1] s1(2)
    by (auto dest: rx_run_has_cap)
next
  case (Grp j r)
  then show ?case by (auto simp: has_cap_def)
qed auto

lemma try_at_group:
  "try_at r U ic adv p pv cs = Some a \<Longrightarrow> sets_group k r \<Longrightarrow> map_of (m_caps a) k \<noteq> None"
  by (auto simp: try_at_def find_Some_iff has_cap_def dest!: rx_run_sets_group[where s'="_ ! _", OF _ nth_mem])

lemma search_from_group:
  "search_from r U ic p pv cs = Some a \<Longrightarrow> sets_group k r \<Longrightarrow> map_of (m_caps a) k \<noteq> None"
proof (induction cs arbitrary: p pv)
  case Nil
  then show ?case
    by (subst (asm) search_from.simps) (auto split: option.splits dest: try_at_group)
next
  case (Cons c cs)
  then show ?case
    by (subst (asm) (2) search_from.simps) (auto split: option.splits dest: try_at_group)
qed

lemma re_search_group:
  "re_search r U ic text = Some a \<Longrightarrow> sets_group k r \<Longrightarrow> \<exists>v. group text a k = Some v"
  by (auto simp: re_search_def group_def dest: search_from_group)

lemma sets_group_has_group: "sets_group k r \<Longrightarrow> has_group k r"
  by (induction r) auto

section \<open>Properties of parsers.py and orchestrator.py\<close>

subsection \<open>The key set of a field record\<close>

lemmas frag_defs = colon_space_def amount_def dollar_amount_def rupee_amount_def d09_def slash_date_def
  slash_date_d_def alnum_items_def date_word_def Star_def Plus_def Opt_def Space_def Digit_def

lemma dom_empty_fields: "dom empty_fields = set FIELDS"
  by (auto simp: empty_fields_def FIELDS_def dom_def)

lemma group_into_dom:
  assumes "m = None \<or> (\<exists>a v. m = Some a \<and> group text a k = Some v)"
    and "\<forall>v. \<exists>w. f (Some v) = Inr w" and "key \<in> dom out"
  shows "\<exists>out'. group_into text m k f key out = Inr out' \<and> dom out' = dom out"
proof (cases m)
  case None
  then show ?thesis by (simp add: group_into_def)
next
  case (Some a)
  with assms(1) obtain v where v: "group text a k = Some v" by auto
  from assms(2) obtain w where "f (Some v) = Inr w" by blast
  with Some v assms(3) show ?thesis by (auto simp: group_into_def)
qed

lemma search_into_dom:
  assumes "sets_group k r" and "\<forall>v. \<exists>w. f (Some v) = Inr w" and "key \<in> dom out"
  shows "\<exists>out'. search_into U text r k f key out = Inr out' \<and> dom out' = dom out"
  unfolding search_into_def
proof (rule group_into_dom)
  show "re_search r U True text = None \<or>
        (\<exists>a v. re_search r U True text = Some a \<and> group text a k = Some v)"
    using re_search_group[OF _ assms(1)] by (cases "re_search r U True text") auto
qed (use assms in auto)

lemma search_into_as_is_dom:
  assumes "key \<in> dom out"
  shows "\<exists>out'. search_into U text r k as_is key out = Inr out' \<and> dom out' = dom out"
  using assms by (auto simp: search_into_def group_into_def as_is_def split: option.splits)

lemma conv_ok:
  "\<forall>v. \<exists>w. stripped U (Some v) = Inr w" "\<forall>v. \<exists>w. cleaned U (Some v) = Inr w"
  "\<forall>v. \<exists>w. last4_of U (Some v) = Inr w" "\<forall>v. \<exists>w. as_is (Some v) = Inr w"
  by (simp_all add: stripped_def cleaned_def last4_of_def as_is_def)

lemma find_value_ok:
  assumes "sets_group 1 v"
  shows "\<exists>x. find_value_after_label U text l v w = Inr x"
proof (cases "re_search l U True text")
  case None
  then show ?thesis by (simp add: find_value_after_label_def)
next
  case (Some a)
  show ?thesis
  proof (cases "re_search v U True (py_slice text (m_end a) (int (m_end a) + w))")
    case None
    with Some show ?thesis by (simp add: find_value_after_label_def)
  next
    case mv: (Some mv)
    from re_search_group[OF mv assms] obtain g where
      "group (py_slice text (m_end a) (int (m_end a) + w)) mv 1 = Some g" by blast
    with Some mv sets_group_has_group[OF assms] show ?thesis
      by (simp add: find_value_after_label_def)
  qed
qed

lemma label_into_dom:
  assumes "sets_group 1 v" and "key \<in> dom out"
  shows "\<exists>out'. label_into U text l v w f key out = Inr out' \<and> dom out' = dom out"
proof -
  from find_value_ok[OF assms(1)] obtain x where "find_value_after_label U text l v w = Inr x"
    by blast
  with assms(2) show ?thesis by (auto simp: label_into_def split: option.splits)
qed

lemma sets_group_amounts:
  "sets_group 1 dollar_amount" "sets_group 1 rupee_amount" "sets_group 1 slash_date"
  "sets_group 1 slash_date_d"
  by (simp_all add: frag_defs)

lemma b3_balance_into_dom:
  assumes "''total_balance'' \<in> dom out"
  shows "\<exists>out'. b3_balance_into U text out = Inr out' \<and> dom out' = dom out"
proof -
  from find_value_ok[OF sets_group_amounts(2)] obtain x where
    x: "find_value_after_label U text b3_total_label rupee_amount 80 = Inr x" by blast
  have sg: "sets_group 1 b3_total_loose" by (simp add: b3_total_loose_def)
  show ?thesis
  proof (cases "truthy x")
    case True
    then obtain y where "x = Some y" by (auto simp: truthy_def split: option.splits)
    with True x assms show ?thesis by (auto simp: b3_balance_into_def)
  next
    case False
    have "\<exists>out'. search_into U text b3_total_loose 1 (cleaned U) ''total_balance'' out = Inr out'
            \<and> dom out' = dom out"
      by (rule search_into_dom) (use sg conv_ok assms in simp_all)
    with False x show ?thesis
      by (simp add: b3_balance_into_def)
  qed
qed

lemma b4_balance_into_dom:
  assumes "''total_balance'' \<in> dom out"
  shows "\<exists>out'. b4_balance_into U text out = Inr out' \<and> dom out' = dom out"
proof -
  from find_value_ok[OF sets_group_amounts(1)] obtain x where
    x: "find_value_after_label U text b4_new_balance dollar_amount 30 = Inr x" by blast
  from find_value_ok[OF sets_group_amounts(1)] obtain y where
    y: "find_value_after_label U text b4_eq_balance dollar_amount 30 = Inr y" by blast
  from x y assms show ?thesis
    by (auto simp: b4_balance_into_def split: option.splits)
qed

lemma in_fields:
  "''total_balance'' \<in> set FIELDS" "''payment_due_date'' \<in> set FIELDS"
  "''minimum_payment'' \<in> set FIELDS" "''last4'' \<in> set FIELDS"
  "''statement_closing_date'' \<in> set FIELDS"
  by (simp_all add: FIELDS_def)

lemma keeps_bind:
  assumes "keeps D f" and "keeps D g"
  shows "keeps D (\<lambda>out. bind_res (f out) g)"
  unfolding keeps_def
proof (intro allI impI)
  fix out :: fields
  assume "dom out = D"
  with assms(1) obtain o1 where o1: "f out = Inr o1" "dom o1 = D"
    unfolding keeps_def by blast
  with assms(2) obtain o2 where "g o1 = Inr o2" "dom o2 = D"
    unfolding keeps_def by blast
  with o1 show "\<exists>out'. bind_res (f out) g = Inr out' \<and> dom out' = D" by simp
qed

lemma keeps_apply: "keeps D f \<Longrightarrow> dom out = D \<Longrightarrow> \<exists>out'. f out = Inr out' \<and> dom out' = D"
  by (simp add: keeps_def)

lemma keeps_search:
  "sets_group k r \<Longrightarrow> \<forall>v. \<exists>w. f (Some v) = Inr w \<Longrightarrow> key \<in> D \<Longrightarrow>
   keeps D (search_into U text r k f key)"
  unfolding keeps_def using search_into_dom by metis

lemma keeps_search_as_is: "key \<in> D \<Longrightarrow> keeps D (search_into U text r k as_is key)"
  unfolding keeps_def using search_into_as_is_dom by metis

lemma keeps_label: "sets_group 1 v \<Longrightarrow> key \<in> D \<Longrightarrow> keeps D (label_into U text l v w f key)"
  unfolding keeps_def using label_into_dom by metis

lemma keeps_b3: "''total_balance'' \<in> D \<Longrightarrow> keeps D (b3_balance_into U text)"
  unfolding keeps_def using b3_balance_into_dom by metis

lemma keeps_b4: "''total_balance'' \<in> D \<Longrightarrow> keeps D (b4_balance_into U text)"
  unfolding keeps_def using b4_balance_into_dom by metis

lemma keeps_b2_account:
  "keeps (set FIELDS) (group_into text
     (case re_search b2_primary U True text of None \<Rightarrow> re_search b2_account U True text
      | Some a \<Rightarrow> Some a) 1 (last4_of U) ''last4'')"
proof -
  have g1: "sets_group 1 b2_primary" by (simp add: b2_primary_def)
  have g2: "sets_group 1 b2_account" by (simp add: b2_account_def)
  let ?m = "case re_search b2_primary U True text of None \<Rightarrow> re_search b2_account U True text
      | Some a \<Rightarrow> Some a"
  have m: "?m = None \<or> (\<exists>a v. ?m = Some a \<and> group text a 1 = Some v)"
  proof (cases "re_search b2_primary U True text")
    case None
    then show ?thesis using re_search_group[OF _ g2, where U=U and ic=True]
      by (cases "re_search b2_account U True text") auto
  next
    case (Some a)
    then show ?thesis using re_search_group[OF _ g1, where U=U and ic=True] by auto
  qed
  show ?thesis
    unfolding keeps_def
  proof (intro allI impI)
    fix out :: fields assume "dom out = set FIELDS"
    then have k: "''last4'' \<in> dom out" by (simp add: FIELDS_def)
    have "\<exists>out'. group_into text ?m 1 (last4_of U) ''last4'' out = Inr out' \<and> dom out' = dom out"
      by (rule group_into_dom) (use m conv_ok k in simp_all)
    then show "\<exists>out'. group_into text ?m 1 (last4_of U) ''last4'' out = Inr out'
        \<and> dom out' = set FIELDS"
      using \<open>dom out = set FIELDS\<close> by simp
  qed
qed

lemmas keeps_intros = keeps_bind keeps_search keeps_label keeps_b3 keeps_b4 keeps_b2_account

lemma dom_b1_first:
  "dom (if c then empty_fields(''total_balance'' \<mapsto> v) else empty_fields) = set FIELDS"
  by (simp add: dom_empty_fields in_fields insert_absorb)

lemma sets_group_patterns:
  "sets_group (Suc 0) b1_due" "sets_group (Suc 0) b1_minimum" "sets_group (Suc 0) b1_account"
  "sets_group 2 b1_closing" "sets_group (Suc 0) b2_balance" "sets_group (Suc 0) b2_statement"
  "sets_group (Suc 0) b3_due" "sets_group (Suc 0) b3_card" "sets_group (Suc 0) b3_statement"
  "sets_group (Suc 0) b4_due" "sets_group (Suc 0) b4_account" "sets_group (Suc 0) b4_closing"
  "sets_group (Suc 0) b5_account" "sets_group (Suc 0) b5_statement"
  "sets_group (Suc 0) dollar_amount" "sets_group (Suc 0) rupee_amount"
  "sets_group (Suc 0) slash_date"
  by (simp_all add: b1_due_def b1_minimum_def b1_account_def b1_closing_def b2_balance_def
      b2_statement_def b3_due_def b3_card_def b3_statement_def b4_due_def b4_account_def
      b4_closing_def b5_account_def b5_statement_def frag_defs)

lemma parse_bank_1_dom: "\<exists>out. parse_bank_1 U text = Inr out \<and> dom out = set FIELDS"
  unfolding parse_bank_1_def Let_def
  by (rule keeps_apply, intro keeps_intros)
     (simp_all only: conv_ok in_fields dom_b1_first sets_group_patterns One_nat_def simp_thms)

lemma parse_bank_2_dom: "\<exists>out. parse_bank_2 U text = Inr out \<and> dom out = set FIELDS"
  unfolding parse_bank_2_def Let_def
  by (rule keeps_apply, intro keeps_intros)
     (simp_all only: conv_ok in_fields dom_empty_fields sets_group_patterns One_nat_def simp_thms)

lemma parse_bank_3_dom: "\<exists>out. parse_bank_3 U text = Inr out \<and> dom out = set FIELDS"
  unfolding parse_bank_3_def Let_def
  by (rule keeps_apply, intro keeps_intros)
     (simp_all only: conv_ok in_fields dom_empty_fields sets_group_patterns One_nat_def simp_thms)

lemma parse_bank_4_dom: "\<exists>out. parse_bank_4 U text = Inr out \<and> dom out = set FIELDS"
  unfolding parse_bank_4_def Let_def
  by (rule keeps_apply, intro keeps_intros)
     (simp_all only: conv_ok in_fields dom_empty_fields sets_group_patterns One_nat_def simp_thms)

lemma parse_bank_5_dom: "\<exists>out. parse_bank_5 U text = Inr out \<and> dom out = set FIELDS"
  unfolding parse_bank_5_def Let_def
  by (rule keeps_apply, intro keeps_intros)
     (simp_all only: conv_ok in_fields dom_empty_fields sets_group_patterns One_nat_def simp_thms)

lemma map_of_const:
  "map_of (map (\<lambda>k. (k, v)) xs) k = (if k \<in> set xs then Some v else None)"
  by (induction xs) auto

lemma empty_fields_apply: "empty_fields k = (if k \<in> set FIELDS then Some None else None)"
  unfolding empty_fields_def by (rule map_of_const)

text \<open>
  C1. For every text and whatever the Unicode tables, each of \<open>parse_bank_1\<close> to
  \<open>parse_bank_5\<close> returns (it does not raise) a dict whose key set is exactly the five
  names of \<open>FIELDS\<close>; so does the fallback of the orchestrator for an unclassified
  text, \<open>{k: None for k in FIELDS}\<close>, in which every field is present with the value
  \<open>None\<close>.
\<close>

theorem field_record_keys:
  "(\<exists>out. parse_bank_1 U text = Inr out \<and> dom out = set FIELDS)
   \<and> (\<exists>out. parse_bank_2 U text = Inr out \<and> dom out = set FIELDS)
   \<and> (\<exists>out. parse_bank_3 U text = Inr out \<and> dom out = set FIELDS)
   \<and> (\<exists>out. parse_bank_4 U text = Inr out \<and> dom out = set FIELDS)
   \<and> (\<exists>out. parse_bank_5 U text = Inr out \<and> dom out = set FIELDS)
   \<and> dom empty_fields = set FIELDS
   \<and> (\<forall>k. empty_fields k = (if k \<in> set FIELDS then Some None else None))
   \<and> set FIELDS = {''total_balance'', ''payment_due_date'', ''minimum_payment'', ''last4'',
                     ''statement_closing_date''}"
proof (intro conjI allI)
  show "set FIELDS = {''total_balance'', ''payment_due_date'', ''minimum_payment'', ''last4'',
                     ''statement_closing_date''}"
    unfolding FIELDS_def by (simp only: list.set)
qed (rule parse_bank_1_dom parse_bank_2_dom parse_bank_3_dom parse_bank_4_dom parse_bank_5_dom
      dom_empty_fields empty_fields_apply)+

subsection \<open>Detection\<close>

lemma detect_bank_first_hit: "detect_bank U text = first_hit (u_lower U text)"
  by (simp add: detect_bank_def first_hit_def cue_table_def hits_def Let_def)

lemma find_first:
  "i < length xs \<Longrightarrow> P (xs ! i) \<Longrightarrow> (\<forall>k<i. \<not> P (xs ! k)) \<Longrightarrow> find P xs = Some (xs ! i)"
proof (induction xs arbitrary: i)
  case Nil
  then show ?case by simp
next
  case (Cons x xs)
  show ?case
  proof (cases i)
    case 0
    with Cons.prems show ?thesis by simp
  next
    case (Suc j)
    with Cons.prems have "\<not> P x" by auto
    moreover have "find P xs = Some (xs ! j)"
      using Cons.prems Suc by (intro Cons.IH) auto
    ultimately show ?thesis using Suc by simp
  qed
qed

text \<open>
  C2. \<open>detect_bank\<close> lower-cases the text and returns the bank of the first rule of the
  table with a cue phrase in it: a rule that hits while no earlier rule does gives the
  result; when the rules that hit are exactly those of two banks, the earlier of the
  two is returned; when no rule hits, the result is \<open>None\<close>.
\<close>

theorem detect_bank_first_match_wins:
  "detect_bank U text = first_hit (u_lower U text)
   \<and> (\<forall>i<length cue_table.
         hits (u_lower U text) (cue_table ! i)
         \<and> (\<forall>k<i. \<not> hits (u_lower U text) (cue_table ! k))
         \<longrightarrow> detect_bank U text = Some (ascii (snd (cue_table ! i))))
   \<and> (\<forall>i j. i < j \<and> j < length cue_table
         \<and> (\<forall>k<length cue_table. hits (u_lower U text) (cue_table ! k) \<longleftrightarrow> k = i \<or> k = j)
         \<longrightarrow> detect_bank U text = Some (ascii (snd (cue_table ! i))))
   \<and> ((\<forall>k<length cue_table. \<not> hits (u_lower U text) (cue_table ! k))
         \<longrightarrow> detect_bank U text = None)"
proof -
  let ?t = "u_lower U text"
  have first: "detect_bank U text = Some (ascii (snd (cue_table ! i)))"
    if "i < length cue_table" "hits ?t (cue_table ! i)" "\<forall>k<i. \<not> hits ?t (cue_table ! k)" for i
    using find_first[of i cue_table "hits ?t"] that by (simp add: detect_bank_first_hit first_hit_def)
  have two: "detect_bank U text = Some (ascii (snd (cue_table ! i)))"
    if "i < j" "j < length cue_table"
       "\<forall>k<length cue_table. hits ?t (cue_table ! k) \<longleftrightarrow> k = i \<or> k = j" for i j
  proof (rule first)
    show "i < length cue_table" using that by simp
    then show "hits ?t (cue_table ! i)" using that by simp
    show "\<forall>k<i. \<not> hits ?t (cue_table ! k)" using that by auto
  qed
  have none: "detect_bank U text = None" if "\<forall>k<length cue_table. \<not> hits ?t (cue_table ! k)"
  proof -
    have "find (hits ?t) cue_table = None"
      using that by (auto simp: find_None_iff in_set_conv_nth)
    then show ?thesis by (simp add: detect_bank_first_hit first_hit_def)
  qed
  show ?thesis using first two none detect_bank_first_hit by blast
qed

theorem detect_bank_first_match_wins_witness:
  "detect_bank ascii_db two_banks_text = Some (ascii ''bank2'')"
proof -
  let ?t = "u_lower ascii_db two_banks_text"
  have h: "hits ?t (cue_table ! 0) = False" "hits ?t (cue_table ! 1) = True"
    "hits ?t (cue_table ! 2) = False" "hits ?t (cue_table ! 3) = True"
    "hits ?t (cue_table ! 4) = False"
    by code_simp+
  have len: "length cue_table = 5" by (simp add: cue_table_def)
  have all: "\<forall>k<length cue_table. hits ?t (cue_table ! k) \<longleftrightarrow> k = 1 \<or> k = 3"
  proof (intro allI impI)
    fix k assume "k < length cue_table"
    then have "k = 0 \<or> k = 1 \<or> k = 2 \<or> k = 3 \<or> k = 4" using len by auto
    then show "hits ?t (cue_table ! k) \<longleftrightarrow> k = 1 \<or> k = 3" using h by auto
  qed
  have "(1::nat) < 3 \<and> 3 < length cue_table" using len by simp
  with all detect_bank_first_match_wins[of ascii_db two_banks_text]
  have "detect_bank ascii_db two_banks_text = Some (ascii (snd (cue_table ! 1)))" by blast
  then show ?thesis by (simp add: cue_table_def)
qed

subsection \<open>The orchestrator on an unclassified text\<close>

text \<open>
  C8. When \<open>detect_bank\<close> gives \<open>None\<close>, \<open>identify_and_parse\<close> returns (it does not raise)
  the dict with \<open>bank\<close> equal to \<open>"unknown"\<close> and each of the five fields present with
  the value \<open>None\<close>, and with no other key.
\<close>

theorem unknown_bank_all_absent:
  assumes "detect_bank U text = None"
  shows "\<exists>r. identify_and_parse U text = Inr r
           \<and> r ''bank'' = Some (Some (ascii ''unknown''))
           \<and> r ''total_balance'' = Some None
           \<and> r ''payment_due_date'' = Some None
           \<and> r ''minimum_payment'' = Some None
           \<and> r ''last4'' = Some None
           \<and> r ''statement_closing_date'' = Some None
           \<and> dom r = {''bank'', ''total_balance'', ''payment_due_date'', ''minimum_payment'',
                       ''last4'', ''statement_closing_date''}"
proof -
  have ne: "ascii ''unknown'' \<noteq> ascii ''bank1''" "ascii ''unknown'' \<noteq> ascii ''bank2''"
    "ascii ''unknown'' \<noteq> ascii ''bank3''" "ascii ''unknown'' \<noteq> ascii ''bank4''"
    "ascii ''unknown'' \<noteq> ascii ''bank5''"
    by (simp_all add: ascii_def)
  have "identify_and_parse U text = Inr ([''bank'' \<mapsto> Some (ascii ''unknown'')] ++ empty_fields)"
    using assms ne by (simp add: identify_and_parse_def)
  moreover have "dom ([''bank'' \<mapsto> Some (ascii ''unknown'')] ++ empty_fields) =
      {''bank'', ''total_balance'', ''payment_due_date'', ''minimum_payment'',
                       ''last4'', ''statement_closing_date''}"
    by (auto simp: dom_empty_fields FIELDS_def)
  ultimately show ?thesis
    by (simp add: empty_fields_def FIELDS_def map_add_def)
qed

theorem unknown_bank_all_absent_witness:
  "detect_bank ascii_db (ascii ''Monthly statement of account'') = None
   \<and> (\<exists>r. identify_and_parse ascii_db (ascii ''Monthly statement of account'') = Inr r
           \<and> r ''bank'' = Some (Some (ascii ''unknown''))
           \<and> r ''last4'' = Some None)"
proof -
  have d: "detect_bank ascii_db (ascii ''Monthly statement of account'') = None"
    by code_simp
  from unknown_bank_all_absent[OF d] show ?thesis using d by blast
qed

section \<open>Properties of the shared helpers\<close>

subsection \<open>Last-4 extraction\<close>

lemma try_at_cls:
  "try_at (Cls its) U ic adv p pv cs =
     (case cs of [] \<Rightarrow> None
      | d # ds \<Rightarrow> if class_ok U ic its d then Some \<lparr>m_start = p, m_end = Suc p, m_caps = []\<rparr> else None)"
  by (simp add: try_at_def step_def class_ok_def split: list.splits)

lemma drop_eq_ConsD: "drop p xs = d # ds \<Longrightarrow> drop (Suc p) xs = ds \<and> take 1 (drop p xs) = [d]"
  by (metis drop_Suc drop_drop list.sel(3) plus_1_eq_Suc take0 take_Suc_Cons tl_drop One_nat_def)

lemma iter_from_cls_spans:
  "resume \<le> p \<Longrightarrow> drop p text = cs \<Longrightarrow>
   map (\<lambda>a. span text (m_start a) (m_end a)) (iter_from (Cls its) U ic resume p pv cs) =
   map (\<lambda>d. [d]) (filter (class_ok U ic its) cs)"
proof (induction cs arbitrary: p pv resume)
  case Nil
  then show ?case by (subst iter_from.simps) (simp add: try_at_cls matches_here_def)
next
  case (Cons d ds)
  from drop_eq_ConsD[OF Cons.prems(2)] have d: "drop (Suc p) text = ds" "take 1 (drop p text) = [d]"
    by simp_all
  show ?case
  proof (cases "class_ok U ic its d")
    case True
    have "map (\<lambda>a. span text (m_start a) (m_end a)) (iter_from (Cls its) U ic (Suc p) (Suc p) (Some d) ds) =
          map (\<lambda>d. [d]) (filter (class_ok U ic its) ds)"
      by (rule Cons.IH) (simp_all add: d)
    with True Cons.prems(1) d show ?thesis
      by (subst iter_from.simps) (simp add: try_at_cls span_def matches_here_def)
  next
    case False
    have "map (\<lambda>a. span text (m_start a) (m_end a)) (iter_from (Cls its) U ic resume (Suc p) (Some d) ds) =
          map (\<lambda>d. [d]) (filter (class_ok U ic its) ds)"
      by (rule Cons.IH) (use Cons.prems d in simp_all)
    with False Cons.prems(1) show ?thesis
      by (subst iter_from.simps) (simp add: try_at_cls matches_here_def)
  qed
qed

lemma findall0_digit:
  "findall0 Digit U ic s = map (\<lambda>d. [d]) (filter (u_isdecimal U) s)"
proof -
  have "class_ok U ic [CDigit] = u_isdecimal U"
    by (auto simp: class_ok_def)
  then show ?thesis
    using iter_from_cls_spans[of 0 0 s s "[CDigit]" U ic None]
    by (simp add: findall0_def finditer_def Digit_def)
qed

lemma concat_singletons: "concat (map (\<lambda>d. [d]) xs) = xs"
  by (induction xs) auto

text \<open>
  C5. \<open>_last4_from_number_block\<close> keeps the decimal digits of the block in their order,
  whatever stands between them, and returns the last four of them when there are at
  least four and \<open>None\<close> when there are fewer; with the digits \<open>0\<close> to \<open>9\<close> the decimal
  digits of ASCII, the block \<open>4375 XXXX XXXX 8007\<close> gives \<open>8007\<close>.
\<close>

theorem last4_takes_last_four_digits:
  "last4_from_number_block U s =
     (if 4 \<le> length (filter (u_isdecimal U) s)
      then Some (drop (length (filter (u_isdecimal U) s) - 4) (filter (u_isdecimal U) s))
      else None)
   \<and> ((\<forall>c<128. u_isdecimal U c = ascii_digit c) \<longrightarrow>
        last4_from_number_block U (ascii ''4375 XXXX XXXX 8007'') = Some (ascii ''8007''))"
proof -
  have gen: "last4_from_number_block U s =
     (if 4 \<le> length (filter (u_isdecimal U) s)
      then Some (drop (length (filter (u_isdecimal U) s) - 4) (filter (u_isdecimal U) s))
      else None)" for s
    by (auto simp: last4_from_number_block_def findall0_digit concat_singletons Let_def)
  have ex: "last4_from_number_block U (ascii ''4375 XXXX XXXX 8007'') = Some (ascii ''8007'')"
    if "\<forall>c<128. u_isdecimal U c = ascii_digit c"
  proof -
    have "filter (u_isdecimal U) (ascii ''4375 XXXX XXXX 8007'') = ascii ''43758007''"
      using that by (simp add: ascii_def ascii_digit_def)
    then show ?thesis by (simp add: gen ascii_def)
  qed
  show ?thesis using gen ex by blast
qed

theorem last4_takes_last_four_digits_witness:
  "last4_from_number_block ascii_db (ascii ''4375 XXXX XXXX 8007'') = Some (ascii ''8007'')
   \<and> last4_from_number_block ascii_db (ascii ''No. 12-3'') = None"
proof -
  have "\<forall>c<128. u_isdecimal ascii_db c = ascii_digit c" by (simp add: ascii_db_def)
  with last4_takes_last_four_digits[of ascii_db "ascii ''4375 XXXX XXXX 8007''"]
  have 1: "last4_from_number_block ascii_db (ascii ''4375 XXXX XXXX 8007'') = Some (ascii ''8007'')"
    by blast
  have "filter (u_isdecimal ascii_db) (ascii ''No. 12-3'') = ascii ''123''"
    by (simp add: ascii_def ascii_db_def ascii_digit_def)
  with last4_takes_last_four_digits[of ascii_db "ascii ''No. 12-3''"]
  have 2: "last4_from_number_block ascii_db (ascii ''No. 12-3'') = None"
    by (simp add: ascii_def)
  from 1 2 show ?thesis by simp
qed

section \<open>Properties of the matcher: offsets, the leftmost match, longer subjects\<close>

lemma reaches_refl: "reaches s s"
  by (auto simp: reaches_def intro: exI[of _ 0])

lemma reaches_trans: "reaches a b \<Longrightarrow> reaches b c \<Longrightarrow> reaches a c"
proof -
  assume "reaches a b" "reaches b c"
  then obtain k j where k: "k \<le> length (ms_rest a)" "ms_rest b = drop k (ms_rest a)"
      "ms_pos b = ms_pos a + k"
    and j: "j \<le> length (ms_rest b)" "ms_rest c = drop j (ms_rest b)" "ms_pos c = ms_pos b + j"
    by (auto simp: reaches_def)
  then have "k + j \<le> length (ms_rest a)" "ms_rest c = drop (k + j) (ms_rest a)"
    "ms_pos c = ms_pos a + (k + j)"
    by (auto simp: add.commute)
  then show ?thesis unfolding reaches_def by blast
qed

lemma reaches_pos: "reaches s s' \<Longrightarrow> ms_pos s \<le> ms_pos s'"
  by (auto simp: reaches_def)

lemma reaches_length:
  "reaches s s' \<Longrightarrow> ms_pos s' + length (ms_rest s') = ms_pos s + length (ms_rest s)"
  by (auto simp: reaches_def)

lemma step_iff:
  "s' \<in> set (step P s) \<longleftrightarrow>
     (\<exists>d ds. ms_rest s = d # ds \<and> P d
        \<and> s' = \<lparr>ms_pos = Suc (ms_pos s), ms_prev = Some d, ms_rest = ds, ms_caps = ms_caps s\<rparr>)"
  by (cases "ms_rest s") (auto simp: step_def)

lemma step_reaches: "s' \<in> set (step P s) \<Longrightarrow> reaches s s'"
proof -
  assume "s' \<in> set (step P s)"
  then obtain d ds where "ms_rest s = d # ds" "ms_rest s' = ds" "ms_pos s' = Suc (ms_pos s)"
    by (auto simp: step_iff)
  then have "1 \<le> length (ms_rest s) \<and> ms_rest s' = drop 1 (ms_rest s) \<and> ms_pos s' = ms_pos s + 1"
    by simp
  then show ?thesis unfolding reaches_def by blast
qed

lemma rx_run_reaches: "s' \<in> set (rx_run r U ic s) \<Longrightarrow> reaches s s'"
proof (induction r arbitrary: s s')
  case (Seq a b)
  from Seq.prems obtain t where "t \<in> set (rx_run a U ic s)" "s' \<in> set (rx_run b U ic t)"
    by auto
  then show ?case using Seq.IH reaches_trans by blast
next
  case (Rep lo hi g r)
  have "reaches s s'"
  proof (rule rep_loop_preserves[where Q="reaches s" and f="rx_run r U ic"])
    show "s' \<in> set (rep_loop (rx_run r U ic) lo hi g s)" using Rep.prems by simp
    show "reaches s s" by (rule reaches_refl)
    show "\<And>t t'. t' \<in> set (rx_run r U ic t) \<Longrightarrow> reaches s t \<Longrightarrow> reaches s t'"
      using Rep.IH reaches_trans by blast
  qed
  then show ?case .
next
  case (Grp k r)
  then obtain t where "t \<in> set (rx_run r U ic s)" "s' = t\<lparr>ms_caps := (k, ms_pos s, ms_pos t) # ms_caps t\<rparr>"
    by auto
  with Grp.IH[of t s] show ?case by (simp add: reaches_def)
qed (auto simp: reaches_refl step_reaches split: if_splits)

lemma caps_ok_mono: "caps_ok s \<Longrightarrow> ms_caps s' = ms_caps s \<Longrightarrow> ms_pos s \<le> ms_pos s' \<Longrightarrow> caps_ok s'"
  by (auto simp: caps_ok_def list_all_iff)

lemma rx_run_caps_ok: "s' \<in> set (rx_run r U ic s) \<Longrightarrow> caps_ok s \<Longrightarrow> caps_ok s'"
proof (induction r arbitrary: s s')
  case (Rep lo hi g r)
  show ?case
    by (rule rep_loop_preserves[where Q=caps_ok and f="rx_run r U ic"]) (use Rep in auto)
next
  case (Grp k r)
  then obtain t where t: "t \<in> set (rx_run r U ic s)"
    "s' = t\<lparr>ms_caps := (k, ms_pos s, ms_pos t) # ms_caps t\<rparr>"
    by auto
  have "caps_ok t" using Grp.IH[OF t(1) Grp.prems(2)] .
  moreover have "ms_pos s \<le> ms_pos t" using rx_run_reaches[OF t(1)] by (rule reaches_pos)
  ultimately show ?case using t(2) by (simp add: caps_ok_def)
qed (auto intro: caps_ok_mono dest: step_caps step_reaches reaches_pos split: if_splits)

lemma try_at_False:
  "try_at r U ic False p pv cs =
     (case rx_run r U ic \<lparr>ms_pos = p, ms_prev = pv, ms_rest = cs, ms_caps = []\<rparr> of
        [] \<Rightarrow> None
      | s # ss \<Rightarrow> Some \<lparr>m_start = p, m_end = ms_pos s, m_caps = ms_caps s\<rparr>)"
  by (simp add: try_at_def split: list.splits)

lemma start_at_Suc:
  assumes "drop p text = c # cs"
  shows "start_at text (Suc p) = \<lparr>ms_pos = Suc p, ms_prev = Some c, ms_rest = cs, ms_caps = []\<rparr>"
proof -
  have "p < length text" using assms by (cases "p < length text") auto
  then have "text ! p = c" using assms by (metis nth_via_drop)
  moreover have "drop (Suc p) text = cs" using assms by (metis drop_Suc list.sel(3) tl_drop)
  ultimately show ?thesis by (simp add: start_at_def)
qed

lemma search_from_leftmost:
  "p \<le> length text \<Longrightarrow> drop p text = cs \<Longrightarrow> pv = ms_prev (start_at text p) \<Longrightarrow>
   search_from r U ic p pv cs = Some a \<Longrightarrow>
     p \<le> m_start a \<and> m_start a \<le> length text
     \<and> (\<forall>q. p \<le> q \<and> q < m_start a \<longrightarrow> rx_run r U ic (start_at text q) = [])
     \<and> (\<exists>s ss. rx_run r U ic (start_at text (m_start a)) = s # ss
                \<and> m_end a = ms_pos s \<and> m_caps a = ms_caps s)"
proof (induction cs arbitrary: p pv)
  case Nil
  have st: "\<lparr>ms_pos = p, ms_prev = pv, ms_rest = [], ms_caps = []\<rparr> = start_at text p"
    using Nil.prems by (simp add: start_at_def)
  from Nil.prems(4) have t: "try_at r U ic False p pv [] = Some a"
    by (subst (asm) search_from.simps) (auto split: option.splits)
  with st obtain s ss where "rx_run r U ic (start_at text p) = s # ss"
    "m_end a = ms_pos s" "m_caps a = ms_caps s" "m_start a = p"
    by (auto simp: try_at_False split: list.splits)
  with Nil.prems(1) show ?case by auto
next
  case (Cons c cs)
  have st: "\<lparr>ms_pos = p, ms_prev = pv, ms_rest = c # cs, ms_caps = []\<rparr> = start_at text p"
    using Cons.prems by (simp add: start_at_def)
  show ?case
  proof (cases "try_at r U ic False p pv (c # cs)")
    case (Some b)
    with Cons.prems(4) have "b = a" by (subst (asm) search_from.simps) simp
    with Some st obtain s ss where "rx_run r U ic (start_at text p) = s # ss"
      "m_end a = ms_pos s" "m_caps a = ms_caps s" "m_start a = p"
      by (auto simp: try_at_False split: list.splits)
    with Cons.prems(1) show ?thesis by auto
  next
    case None
    with st have empty: "rx_run r U ic (start_at text p) = []"
      by (auto simp: try_at_False split: list.splits)
    from None Cons.prems(4) have rec: "search_from r U ic (Suc p) (Some c) cs = Some a"
      by (subst (asm) search_from.simps) simp
    have lt: "p < length text" using Cons.prems(2) by (cases "p < length text") auto
    have nx: "start_at text (Suc p) = \<lparr>ms_pos = Suc p, ms_prev = Some c, ms_rest = cs, ms_caps = []\<rparr>"
      using Cons.prems(2) by (rule start_at_Suc)
    have d: "drop (Suc p) text = cs" using nx by (simp add: start_at_def)
    have pv': "Some c = ms_prev (start_at text (Suc p))" using nx by simp
    have ih: "Suc p \<le> m_start a \<and> m_start a \<le> length text
     \<and> (\<forall>q. Suc p \<le> q \<and> q < m_start a \<longrightarrow> rx_run r U ic (start_at text q) = [])
     \<and> (\<exists>s ss. rx_run r U ic (start_at text (m_start a)) = s # ss
                \<and> m_end a = ms_pos s \<and> m_caps a = ms_caps s)"
      using Cons.IH[OF _ d pv' rec] lt by simp
    have "rx_run r U ic (start_at text q) = []" if "p \<le> q" "q < m_start a" for q
    proof (cases "q = p")
      case True then show ?thesis using empty by simp
    next
      case False
      then have "Suc p \<le> q" using that by simp
      then show ?thesis using ih that by blast
    qed
    with ih show ?thesis by auto
  qed
qed

lemma search_from_None:
  "p \<le> length text \<Longrightarrow> drop p text = cs \<Longrightarrow> pv = ms_prev (start_at text p) \<Longrightarrow>
   search_from r U ic p pv cs = None \<Longrightarrow>
   (\<forall>q. p \<le> q \<and> q \<le> length text \<longrightarrow> rx_run r U ic (start_at text q) = [])"
proof (induction cs arbitrary: p pv)
  case Nil
  have st: "\<lparr>ms_pos = p, ms_prev = pv, ms_rest = [], ms_caps = []\<rparr> = start_at text p"
    using Nil.prems by (simp add: start_at_def)
  from Nil.prems(4) have t: "try_at r U ic False p pv [] = None"
    by (subst (asm) search_from.simps) (auto split: option.splits)
  with st have "rx_run r U ic (start_at text p) = []"
    by (auto simp: try_at_False split: list.splits)
  moreover have "length text \<le> p" using Nil.prems(2) by simp
  ultimately show ?case using Nil.prems(1) by (metis le_antisym)
next
  case (Cons c cs)
  have st: "\<lparr>ms_pos = p, ms_prev = pv, ms_rest = c # cs, ms_caps = []\<rparr> = start_at text p"
    using Cons.prems by (simp add: start_at_def)
  from Cons.prems(4) have t: "try_at r U ic False p pv (c # cs) = None"
    and rec: "search_from r U ic (Suc p) (Some c) cs = None"
    by (subst (asm) search_from.simps, auto split: option.splits)+
  with st have empty: "rx_run r U ic (start_at text p) = []"
    by (auto simp: try_at_False split: list.splits)
  have lt: "p < length text" using Cons.prems(2) by (cases "p < length text") auto
  have nx: "start_at text (Suc p) = \<lparr>ms_pos = Suc p, ms_prev = Some c, ms_rest = cs, ms_caps = []\<rparr>"
    using Cons.prems(2) by (rule start_at_Suc)
  have d: "drop (Suc p) text = cs" using nx by (simp add: start_at_def)
  have pv': "Some c = ms_prev (start_at text (Suc p))" using nx by simp
  have ih: "\<forall>q. Suc p \<le> q \<and> q \<le> length text \<longrightarrow> rx_run r U ic (start_at text q) = []"
    using Cons.IH[OF _ d pv' rec] lt by simp
  show ?case
  proof (intro allI impI)
    fix q assume q: "p \<le> q \<and> q \<le> length text"
    show "rx_run r U ic (start_at text q) = []"
    proof (cases "q = p")
      case True then show ?thesis using empty by simp
    next
      case False
      then have "Suc p \<le> q" using q by simp
      then show ?thesis using ih q by blast
    qed
  qed
qed

lemma re_search_Some:
  assumes "re_search r U ic text = Some a"
  shows "m_start a \<le> length text
     \<and> (\<forall>q. q < m_start a \<longrightarrow> rx_run r U ic (start_at text q) = [])
     \<and> (\<exists>s ss. rx_run r U ic (start_at text (m_start a)) = s # ss
                \<and> m_end a = ms_pos s \<and> m_caps a = ms_caps s)"
  using search_from_leftmost[of 0 "text" "text" None r U ic a] assms
  by (simp add: re_search_def start_at_def)

lemma re_search_None:
  assumes "re_search r U ic text = None"
  shows "\<forall>q. q \<le> length text \<longrightarrow> rx_run r U ic (start_at text q) = []"
  using search_from_None[of 0 "text" "text" None r U ic] assms
  by (simp add: re_search_def start_at_def)

lemma re_search_bounds:
  assumes "re_search r U ic text = Some a"
  shows "m_start a \<le> m_end a \<and> m_end a \<le> length text
     \<and> (\<forall>k b e. map_of (m_caps a) k = Some (b, e) \<longrightarrow> b \<le> e \<and> e \<le> m_end a)"
proof -
  from re_search_Some[OF assms] obtain s ss where
    s: "rx_run r U ic (start_at text (m_start a)) = s # ss" "m_end a = ms_pos s" "m_caps a = ms_caps s"
    and le: "m_start a \<le> length text"
    by blast
  then have mem: "s \<in> set (rx_run r U ic (start_at text (m_start a)))" by simp
  have r: "reaches (start_at text (m_start a)) s" using mem by (rule rx_run_reaches)
  have c: "caps_ok s" using mem by (rule rx_run_caps_ok) (simp add: caps_ok_def start_at_def)
  from r le have "m_start a \<le> ms_pos s" "ms_pos s \<le> length text"
    by (auto simp: reaches_def start_at_def)
  moreover have "b \<le> e \<and> e \<le> ms_pos s" if "map_of (ms_caps s) k = Some (b, e)" for k b e
    using c map_of_SomeD[OF that] by (auto simp: caps_ok_def list_all_iff)
  ultimately show ?thesis using s by auto
qed

lemma rep_loop_sim:
  "\<forall>t1 t2 t1'. R t1 t2 \<longrightarrow> t1' \<in> set (f1 t1) \<longrightarrow> (\<exists>t2' \<in> set (f2 t2). R t1' t2') \<Longrightarrow>
   \<forall>t1 t2 t1' t2'. R t1 t2 \<longrightarrow> R t1' t2' \<longrightarrow> length (ms_rest t1') < length (ms_rest t1) \<longrightarrow>
       length (ms_rest t2') < length (ms_rest t2) \<Longrightarrow>
   R s1 s2 \<Longrightarrow> s1' \<in> set (rep_loop f1 lo hi g s1) \<Longrightarrow>
   \<exists>s2' \<in> set (rep_loop f2 lo hi g s2). R s1' s2'"
proof (induction f1 lo hi g s1 arbitrary: s2 s1' rule: rep_loop.induct)
  case (1 f1 lo hi g s1)
  note sim = "1.prems"(1) and prog = "1.prems"(2) and R = "1.prems"(3) and mem = "1.prems"(4)
  show ?case
  proof (cases "0 < lo")
    case True
    with mem obtain t1 where t1: "t1 \<in> set (f1 s1)" "s1' \<in> set (rep_loop f1 (lo - 1) (dec hi) g t1)"
      by (subst (asm) rep_loop_cases) auto
    from sim R t1(1) obtain t2 where t2: "t2 \<in> set (f2 s2)" "R t1 t2" by blast
    from "1.IH"(1)[OF True t1(1) sim prog t2(2) t1(2)]
    obtain s2' where "s2' \<in> set (rep_loop f2 (lo - 1) (dec hi) g t2)" "R s1' s2'" by blast
    with t2(1) True have "s2' \<in> set (rep_loop f2 lo hi g s2)" by (subst rep_loop_cases) auto
    with \<open>R s1' s2'\<close> show ?thesis by blast
  next
    case lo: False
    show ?thesis
    proof (cases "hi = Some 0")
      case True
      with lo mem have "s1' = s1" by (subst (asm) rep_loop_cases) simp
      moreover from lo True have "s2 \<in> set (rep_loop f2 lo hi g s2)" by (subst rep_loop_cases) simp
      ultimately show ?thesis using R by blast
    next
      case hi: False
      from lo hi mem have
        "s1' = s1 \<or> (\<exists>t1 \<in> set (f1 s1). length (ms_rest t1) < length (ms_rest s1)
                 \<and> s1' \<in> set (rep_loop f1 0 (dec hi) g t1))"
        by (subst (asm) rep_loop_cases) simp
      then show ?thesis
      proof
        assume "s1' = s1"
        moreover from lo hi have "s2 \<in> set (rep_loop f2 lo hi g s2)" by (subst rep_loop_cases) simp
        ultimately show ?thesis using R by blast
      next
        assume "\<exists>t1 \<in> set (f1 s1). length (ms_rest t1) < length (ms_rest s1)
                 \<and> s1' \<in> set (rep_loop f1 0 (dec hi) g t1)"
        then obtain t1 where t1: "t1 \<in> set (f1 s1)" "length (ms_rest t1) < length (ms_rest s1)"
          "s1' \<in> set (rep_loop f1 0 (dec hi) g t1)" by blast
        from sim R t1(1) obtain t2 where t2: "t2 \<in> set (f2 s2)" "R t1 t2" by blast
        have p2: "length (ms_rest t2) < length (ms_rest s2)" using prog R t2(2) t1(2) by blast
        have m: "t1 \<in> set (filter (\<lambda>s'. length (ms_rest s') < length (ms_rest s1)) (f1 s1))"
          using t1 by simp
        from "1.IH"(2)[OF lo hi m sim prog t2(2) t1(3)]
        obtain s2' where "s2' \<in> set (rep_loop f2 0 (dec hi) g t2)" "R s1' s2'" by blast
        with t2(1) p2 lo hi have "s2' \<in> set (rep_loop f2 lo hi g s2)"
          by (subst rep_loop_cases) auto
        with \<open>R s1' s2'\<close> show ?thesis by blast
      qed
    qed
  qed
qed

lemma step_extend:
  "s1' \<in> set (step P s1) \<Longrightarrow> ms_rest s2 = ms_rest s1 @ x \<Longrightarrow>
   \<exists>s2' \<in> set (step P s2). ms_rest s2' = ms_rest s1' @ x"
  by (auto simp: step_iff)

lemma plain_extend:
  "plain r \<Longrightarrow> ms_rest s2 = ms_rest s1 @ x \<Longrightarrow> s1' \<in> set (rx_run r U ic s1) \<Longrightarrow>
   \<exists>s2' \<in> set (rx_run r U ic s2). ms_rest s2' = ms_rest s1' @ x"
proof (induction r arbitrary: s1 s2 s1')
  case (Seq a b)
  from Seq.prems(3) obtain t1 where t1: "t1 \<in> set (rx_run a U ic s1)" "s1' \<in> set (rx_run b U ic t1)"
    by auto
  from Seq.IH(1)[OF _ Seq.prems(2) t1(1)] Seq.prems(1)
  obtain t2 where t2: "t2 \<in> set (rx_run a U ic s2)" "ms_rest t2 = ms_rest t1 @ x" by auto
  from Seq.IH(2)[OF _ t2(2) t1(2)] Seq.prems(1)
  obtain s2' where "s2' \<in> set (rx_run b U ic t2)" "ms_rest s2' = ms_rest s1' @ x" by auto
  with t2(1) show ?case by auto
next
  case (Alt a b)
  then show ?case by (auto; blast)
next
  case (Rep lo hi g r)
  have "\<exists>s2' \<in> set (rep_loop (rx_run r U ic) lo hi g s2). ms_rest s2' = ms_rest s1' @ x"
  proof (rule rep_loop_sim[where R="\<lambda>t1 t2. ms_rest t2 = ms_rest t1 @ x" and ?f1.0="rx_run r U ic"
        and ?s1.0=s1])
    show "ms_rest s2 = ms_rest s1 @ x" by (rule Rep.prems(2))
    show "s1' \<in> set (rep_loop (rx_run r U ic) lo hi g s1)" using Rep.prems(3) by simp
    show "\<forall>t1 t2 t1'. ms_rest t2 = ms_rest t1 @ x \<longrightarrow> t1' \<in> set (rx_run r U ic t1) \<longrightarrow>
       (\<exists>t2'\<in>set (rx_run r U ic t2). ms_rest t2' = ms_rest t1' @ x)"
      using Rep.IH Rep.prems(1) by simp
  qed simp
  then show ?case by simp
next
  case (Grp k r)
  from Grp.prems(3) obtain t1 where t1: "t1 \<in> set (rx_run r U ic s1)" "ms_rest s1' = ms_rest t1"
    by auto
  from Grp.IH[OF _ Grp.prems(2) t1(1)] Grp.prems(1) t1(2) show ?case by auto
qed (auto dest: step_extend)

subsection \<open>The label-anchored windowed search\<close>

lemma py_slice_window:
  assumes "0 \<le> w" and "e \<le> length s"
  shows "py_slice s e (int e + w) = take (nat w) (drop e s)"
proof -
  have "take (nat (min (int e + w) (int (length s))) - e) (drop e s) = take (nat w) (drop e s)"
  proof (cases "e + nat w \<le> length s")
    case True
    then have "nat (min (int e + w) (int (length s))) - e = nat w" using assms by auto
    then show ?thesis by simp
  next
    case False
    then have "nat (min (int e + w) (int (length s))) - e = length s - e" using assms by auto
    moreover have "length (drop e s) \<le> nat w" using False by auto
    ultimately show ?thesis by simp
  qed
  then show ?thesis using assms by (simp add: py_slice_def Let_def)
qed

lemma span_of_window:
  assumes "b \<le> e" and "e \<le> length (take n (drop p s))"
  shows "span (take n (drop p s)) b e = span s (p + b) (p + e)"
proof -
  have "e \<le> n" using assms(2) by simp
  have "take (e - b) (drop b (take n (drop p s))) = take (e - b) (take (n - b) (drop b (drop p s)))"
    by (simp add: drop_take)
  also have "\<dots> = take (e - b) (drop (p + b) s)"
    using \<open>e \<le> n\<close> by (simp add: min_def add.commute)
  finally show ?thesis by (simp add: span_def)
qed

lemma drop_take_split: "j \<le> length (take n xs) \<Longrightarrow> drop j xs = drop j (take n xs) @ drop n xs"
  by (metis append_take_drop_id drop_append diff_is_0_eq drop0)

lemma find_value_label_absent:
  "re_search l U True text = None \<Longrightarrow> find_value_after_label U text l v w = Inr None"
  by (simp add: find_value_after_label_def)

lemma find_value_found:
  assumes "0 \<le> w" and "find_value_after_label U text l v w = Inr (Some x)"
  shows "\<exists>a mv b e. re_search l U True text = Some a
           \<and> (\<forall>q<m_start a. rx_run l U True (start_at text q) = [])
           \<and> re_search v U True (take (nat w) (drop (m_end a) text)) = Some mv
           \<and> map_of (m_caps mv) 1 = Some (b, e)
           \<and> b \<le> e \<and> int e \<le> w \<and> m_end a + e \<le> length text
           \<and> x = py_strip U (span text (m_end a + b) (m_end a + e))"
proof -
  from assms(2) obtain a where a: "re_search l U True text = Some a"
    by (cases "re_search l U True text") (auto simp: find_value_after_label_def)
  have le: "m_end a \<le> length text" using re_search_bounds[OF a] by simp
  let ?snip = "take (nat w) (drop (m_end a) text)"
  have snip: "py_slice text (m_end a) (int (m_end a) + w) = ?snip"
    using py_slice_window[OF assms(1) le] .
  from assms(2) a snip obtain mv where mv: "re_search v U True ?snip = Some mv"
    by (cases "re_search v U True ?snip") (auto simp: find_value_after_label_def)
  from assms(2) a snip mv obtain g where g: "group ?snip mv 1 = Some g" "x = py_strip U g"
    by (auto simp: find_value_after_label_def split: if_splits option.splits)
  then obtain b e where be: "map_of (m_caps mv) 1 = Some (b, e)" "g = span ?snip b e"
    by (auto simp: group_def)
  from re_search_bounds[OF mv] be(1) have bnd: "b \<le> e" "e \<le> m_end mv" "m_end mv \<le> length ?snip"
    by auto
  then have e_snip: "e \<le> length ?snip" by simp
  then have "e \<le> nat w" "e \<le> length text - m_end a" by simp_all
  then have "int e \<le> w" "m_end a + e \<le> length text" using le assms(1) by auto
  moreover have "g = span text (m_end a + b) (m_end a + e)"
    using span_of_window[OF bnd(1) e_snip] be(2) by simp
  moreover have "\<forall>q<m_start a. rx_run l U True (start_at text q) = []"
    using re_search_Some[OF a] by blast
  ultimately show ?thesis using a mv be(1) bnd(1) g(2) by blast
qed

lemma find_value_beyond_window:
  assumes "0 \<le> w" and "plain v" and "re_search l U True text = Some a"
    and far: "\<forall>p s'. m_end a \<le> p \<and> p \<le> length text
                \<and> s' \<in> set (rx_run v U True (start_at text p))
              \<longrightarrow> int (m_end a) + w < int (ms_pos s')"
  shows "find_value_after_label U text l v w = Inr None"
proof -
  define e where "e = m_end a"
  define snip where "snip = take (nat w) (drop e text)"
  define x where "x = drop (nat w) (drop e text)"
  have le: "e \<le> length text" using re_search_bounds[OF assms(3)] by (simp add: e_def)
  have slice: "py_slice text e (int e + w) = snip"
    using py_slice_window[OF assms(1) le] by (simp add: snip_def)
  have snip_len: "length snip \<le> nat w" by (simp add: snip_def)
  have "re_search v U True snip = None"
  proof (rule ccontr)
    assume "re_search v U True snip \<noteq> None"
    then obtain mv where mv: "re_search v U True snip = Some mv" by auto
    define j where "j = m_start mv"
    from re_search_Some[OF mv] obtain s1' ss where
      j: "j \<le> length snip"
      and s1': "rx_run v U True (start_at snip j) = s1' # ss" unfolding j_def by blast
    define s1 where "s1 = start_at snip j"
    define s2 where "s2 = start_at text (e + j)"
    have mem1: "s1' \<in> set (rx_run v U True s1)" using s1' by (simp add: s1_def)
    have "drop j (drop e text) = drop j snip @ x"
      unfolding snip_def x_def using j[unfolded snip_def] by (rule drop_take_split)
    then have rest: "ms_rest s2 = ms_rest s1 @ x"
      by (simp only: s1_def s2_def start_at_def mstate.simps drop_drop add.commute)
    from plain_extend[OF assms(2) rest mem1] obtain s2' where
      s2': "s2' \<in> set (rx_run v U True s2)" "ms_rest s2' = ms_rest s1' @ x" by blast
    have p1: "ms_pos s1 = j" "ms_pos s2 = e + j" by (simp_all add: s1_def s2_def start_at_def)
    have l1: "j + length (ms_rest s1) = length snip" using j by (simp add: s1_def start_at_def)
    have l2: "length (ms_rest s2) = length (ms_rest s1) + length x"
      using rest by simp
    have l2': "length (ms_rest s2') = length (ms_rest s1') + length x"
      using s2'(2) by simp
    have r1: "ms_pos s1' + length (ms_rest s1') = ms_pos s1 + length (ms_rest s1)"
      using reaches_length[OF rx_run_reaches[OF mem1]] .
    have r2: "ms_pos s2' + length (ms_rest s2') = ms_pos s2 + length (ms_rest s2)"
      using reaches_length[OF rx_run_reaches[OF s2'(1)]] .
    from r1 r2 l2 l2' p1 have eq: "ms_pos s2' = e + ms_pos s1'" by linarith
    from r1 l1 p1 have "ms_pos s1' \<le> length snip" by linarith
    with snip_len have "ms_pos s1' \<le> nat w" by linarith
    with eq assms(1) have "int (ms_pos s2') \<le> int e + w" by linarith
    moreover have "e + j \<le> length text" using j le by (auto simp: snip_def)
    then have "m_end a \<le> e + j \<and> e + j \<le> length text
        \<and> s2' \<in> set (rx_run v U True (start_at text (e + j)))"
      using s2'(1) by (simp add: e_def s2_def)
    then have "int (m_end a) + w < int (ms_pos s2')" using far by blast
    then have "int e + w < int (ms_pos s2')" by (simp add: e_def)
    ultimately show False by simp
  qed
  then show ?thesis using assms(3) slice by (simp add: find_value_after_label_def e_def)
qed

lemma plain_values: "plain dollar_amount" "plain rupee_amount" "plain slash_date"
  by (simp_all add: frag_defs)

lemma rx_run_cap_keys:
  "s' \<in> set (rx_run r U ic s) \<Longrightarrow> fst ` set (ms_caps s') \<subseteq> fst ` set (ms_caps s) \<union> {k. has_group k r}"
proof (induction r arbitrary: s s')
  case (Seq a b)
  from Seq.prems obtain t where t: "t \<in> set (rx_run a U ic s)" "s' \<in> set (rx_run b U ic t)" by auto
  have A: "fst ` set (ms_caps t) \<subseteq> fst ` set (ms_caps s) \<union> {k. has_group k a}"
    using Seq.IH(1)[OF t(1)] .
  have B: "fst ` set (ms_caps s') \<subseteq> fst ` set (ms_caps t) \<union> {k. has_group k b}"
    using Seq.IH(2)[OF t(2)] .
  have "{k. has_group k (Seq a b)} = {k. has_group k a} \<union> {k. has_group k b}" by auto
  with A B show ?case by blast
next
  case (Alt a b)
  have "{k. has_group k (Alt a b)} = {k. has_group k a} \<union> {k. has_group k b}" by auto
  moreover from Alt.prems have "s' \<in> set (rx_run a U ic s) \<or> s' \<in> set (rx_run b U ic s)" by auto
  ultimately show ?case using Alt.IH by blast
next
  case (Rep lo hi g r)
  have "fst ` set (ms_caps s') \<subseteq> fst ` set (ms_caps s) \<union> {k. has_group k r}"
  proof (rule rep_loop_preserves[where Q="\<lambda>t. fst ` set (ms_caps t) \<subseteq> fst ` set (ms_caps s) \<union> {k. has_group k r}"
        and f="rx_run r U ic"])
    show "s' \<in> set (rep_loop (rx_run r U ic) lo hi g s)" using Rep.prems by simp
    show "\<And>t t'. t' \<in> set (rx_run r U ic t) \<Longrightarrow> fst ` set (ms_caps t) \<subseteq> fst ` set (ms_caps s) \<union> {k. has_group k r} \<Longrightarrow>
        fst ` set (ms_caps t') \<subseteq> fst ` set (ms_caps s) \<union> {k. has_group k r}"
      using Rep.IH by blast
  qed simp
  then show ?case by simp
next
  case (Grp k r)
  then obtain t where t: "t \<in> set (rx_run r U ic s)"
    "s' = t\<lparr>ms_caps := (k, ms_pos s, ms_pos t) # ms_caps t\<rparr>" by auto
  have "{j. has_group j (Grp k r)} = insert k {j. has_group j r}" by auto
  moreover have "fst ` set (ms_caps s') = insert k (fst ` set (ms_caps t))" using t(2) by simp
  ultimately show ?case using Grp.IH[OF t(1)] by blast
qed (auto dest!: step_caps split: if_splits)

lemma re_search_captured_group:
  assumes "re_search r U ic tx = Some a" and "map_of (m_caps a) k = Some be"
  shows "has_group k r"
proof -
  from re_search_Some[OF assms(1)] obtain s ss where
    s: "rx_run r U ic (start_at tx (m_start a)) = s # ss" "m_caps a = ms_caps s" by blast
  then have "s \<in> set (rx_run r U ic (start_at tx (m_start a)))" by simp
  from rx_run_cap_keys[OF this] have "fst ` set (ms_caps s) \<subseteq> {k. has_group k r}"
    by (simp add: start_at_def)
  moreover have "k \<in> fst ` set (ms_caps s)"
    using assms(2) s(2) map_of_SomeD[of "ms_caps s" k be] by force
  ultimately show ?thesis by auto
qed

lemma find_value_exact:
  assumes "0 \<le> w"
  shows "find_value_after_label U tx l v w =
     (case re_search l U True tx of
        None \<Rightarrow> Inr None
      | Some a \<Rightarrow>
          (case re_search v U True (take (nat w) (drop (m_end a) tx)) of
             None \<Rightarrow> Inr None
           | Some mv \<Rightarrow>
               (case map_of (m_caps mv) 1 of
                  None \<Rightarrow> Inl (if has_group 1 v then AttributeError else IndexError)
                | Some (b, e) \<Rightarrow> Inr (Some (py_strip U (span tx (m_end a + b) (m_end a + e)))))))"
proof (cases "re_search l U True tx")
  case None
  then show ?thesis by (simp add: find_value_after_label_def)
next
  case (Some a)
  have le: "m_end a \<le> length tx" using re_search_bounds[OF Some] by simp
  let ?snip = "take (nat w) (drop (m_end a) tx)"
  have snip: "py_slice tx (m_end a) (int (m_end a) + w) = ?snip"
    using py_slice_window[OF assms le] .
  show ?thesis
  proof (cases "re_search v U True ?snip")
    case None
    with Some snip show ?thesis by (simp add: find_value_after_label_def)
  next
    case mv: (Some mv)
    show ?thesis
    proof (cases "map_of (m_caps mv) 1")
      case None
      with Some mv snip show ?thesis by (simp add: find_value_after_label_def group_def)
    next
      case be: (Some be)
      obtain b e where [simp]: "be = (b, e)" by (cases be)
      have hg: "has_group 1 v" using re_search_captured_group[OF mv be] .
      from re_search_bounds[OF mv] be have "b \<le> e" "e \<le> m_end mv" "m_end mv \<le> length ?snip"
        by auto
      then have bnd: "b \<le> e" "e \<le> length ?snip" by simp_all
      have "span ?snip b e = span tx (m_end a + b) (m_end a + e)"
        using span_of_window[OF bnd] .
      with Some mv snip be hg show ?thesis
        by (simp add: find_value_after_label_def group_def Let_def)
    qed
  qed
qed

lemma rx_run_shrinks: "s' \<in> set (rx_run r U ic s) \<Longrightarrow> length (ms_rest s') \<le> length (ms_rest s)"
  using reaches_length[OF rx_run_reaches, of s' r U ic s] reaches_pos[OF rx_run_reaches, of s' r U ic s]
  by linarith

lemma rep_loop_shrinks:
  assumes "\<forall>t t'. t' \<in> set (f t) \<longrightarrow> length (ms_rest t') \<le> length (ms_rest t)"
    and "s' \<in> set (rep_loop f lo hi g s)"
  shows "length (ms_rest s') \<le> length (ms_rest s)"
proof (rule rep_loop_preserves[where Q="\<lambda>t. length (ms_rest t) \<le> length (ms_rest s)" and f=f])
  show "s' \<in> set (rep_loop f lo hi g s)" by (rule assms(2))
  show "\<And>t t'. t' \<in> set (f t) \<Longrightarrow> length (ms_rest t) \<le> length (ms_rest s) \<Longrightarrow>
      length (ms_rest t') \<le> length (ms_rest s)"
    using assms(1) order_trans by blast
qed simp

lemma rep_loop_restrict:
  "\<forall>t1 t2 t1'. ms_rest t1 = ms_rest t2 @ x \<longrightarrow> t1' \<in> set (f1 t1) \<longrightarrow> length x \<le> length (ms_rest t1')
      \<longrightarrow> (\<exists>t2' \<in> set (f2 t2). ms_rest t1' = ms_rest t2' @ x) \<Longrightarrow>
   \<forall>t t'. t' \<in> set (f1 t) \<longrightarrow> length (ms_rest t') \<le> length (ms_rest t) \<Longrightarrow>
   ms_rest s1 = ms_rest s2 @ x \<Longrightarrow> s1' \<in> set (rep_loop f1 lo hi g s1) \<Longrightarrow>
   length x \<le> length (ms_rest s1') \<Longrightarrow>
   \<exists>s2' \<in> set (rep_loop f2 lo hi g s2). ms_rest s1' = ms_rest s2' @ x"
proof (induction f1 lo hi g s1 arbitrary: s2 s1' rule: rep_loop.induct)
  case (1 f1 lo hi g s1)
  note sim = "1.prems"(1) and mono = "1.prems"(2) and R = "1.prems"(3) and mem = "1.prems"(4)
    and len = "1.prems"(5)
  show ?case
  proof (cases "0 < lo")
    case True
    with mem obtain t1 where t1: "t1 \<in> set (f1 s1)" "s1' \<in> set (rep_loop f1 (lo - 1) (dec hi) g t1)"
      by (subst (asm) rep_loop_cases) auto
    have "length (ms_rest s1') \<le> length (ms_rest t1)" using rep_loop_shrinks[OF mono t1(2)] .
    with len have l1: "length x \<le> length (ms_rest t1)" by simp
    from sim R t1(1) l1 obtain t2 where t2: "t2 \<in> set (f2 s2)" "ms_rest t1 = ms_rest t2 @ x" by blast
    from "1.IH"(1)[OF True t1(1) sim mono t2(2) t1(2) len]
    obtain s2' where s2': "s2' \<in> set (rep_loop f2 (lo - 1) (dec hi) g t2)" "ms_rest s1' = ms_rest s2' @ x"
      by blast
    with t2(1) True have "s2' \<in> set (rep_loop f2 lo hi g s2)" by (subst rep_loop_cases) auto
    with s2'(2) show ?thesis by blast
  next
    case lo: False
    show ?thesis
    proof (cases "hi = Some 0")
      case True
      with lo mem have "s1' = s1" by (subst (asm) rep_loop_cases) simp
      moreover from lo True have "s2 \<in> set (rep_loop f2 lo hi g s2)" by (subst rep_loop_cases) simp
      ultimately show ?thesis using R by blast
    next
      case hi: False
      from lo hi mem have
        "s1' = s1 \<or> (\<exists>t1 \<in> set (f1 s1). length (ms_rest t1) < length (ms_rest s1)
                 \<and> s1' \<in> set (rep_loop f1 0 (dec hi) g t1))"
        by (subst (asm) rep_loop_cases) simp
      then show ?thesis
      proof
        assume "s1' = s1"
        moreover from lo hi have "s2 \<in> set (rep_loop f2 lo hi g s2)" by (subst rep_loop_cases) simp
        ultimately show ?thesis using R by blast
      next
        assume "\<exists>t1 \<in> set (f1 s1). length (ms_rest t1) < length (ms_rest s1)
                 \<and> s1' \<in> set (rep_loop f1 0 (dec hi) g t1)"
        then obtain t1 where t1: "t1 \<in> set (f1 s1)" "length (ms_rest t1) < length (ms_rest s1)"
          "s1' \<in> set (rep_loop f1 0 (dec hi) g t1)" by blast
        have "length (ms_rest s1') \<le> length (ms_rest t1)" using rep_loop_shrinks[OF mono t1(3)] .
        with len have l1: "length x \<le> length (ms_rest t1)" by simp
        from sim R t1(1) l1 obtain t2 where t2: "t2 \<in> set (f2 s2)" "ms_rest t1 = ms_rest t2 @ x" by blast
        have p2: "length (ms_rest t2) < length (ms_rest s2)" using R t2(2) t1(2) by simp
        have m: "t1 \<in> set (filter (\<lambda>s'. length (ms_rest s') < length (ms_rest s1)) (f1 s1))"
          using t1 by simp
        from "1.IH"(2)[OF lo hi m sim mono t2(2) t1(3) len]
        obtain s2' where s2': "s2' \<in> set (rep_loop f2 0 (dec hi) g t2)" "ms_rest s1' = ms_rest s2' @ x"
          by blast
        with t2(1) p2 lo hi have "s2' \<in> set (rep_loop f2 lo hi g s2)"
          by (subst rep_loop_cases) auto
        with s2'(2) show ?thesis by blast
      qed
    qed
  qed
qed

lemma step_restrict:
  "s1' \<in> set (step P s1) \<Longrightarrow> ms_rest s1 = ms_rest s2 @ x \<Longrightarrow> length x \<le> length (ms_rest s1') \<Longrightarrow>
   \<exists>s2' \<in> set (step P s2). ms_rest s1' = ms_rest s2' @ x"
  by (cases "ms_rest s2") (auto simp: step_iff)

lemma plain_restrict:
  "plain r \<Longrightarrow> ms_rest s1 = ms_rest s2 @ x \<Longrightarrow> s1' \<in> set (rx_run r U ic s1) \<Longrightarrow>
   length x \<le> length (ms_rest s1') \<Longrightarrow>
   \<exists>s2' \<in> set (rx_run r U ic s2). ms_rest s1' = ms_rest s2' @ x"
proof (induction r arbitrary: s1 s2 s1')
  case (Seq a b)
  from Seq.prems(3) obtain t1 where t1: "t1 \<in> set (rx_run a U ic s1)" "s1' \<in> set (rx_run b U ic t1)"
    by auto
  have l1: "length x \<le> length (ms_rest t1)" using rx_run_shrinks[OF t1(2)] Seq.prems(4) by simp
  from Seq.IH(1)[OF _ Seq.prems(2) t1(1) l1] Seq.prems(1)
  obtain t2 where t2: "t2 \<in> set (rx_run a U ic s2)" "ms_rest t1 = ms_rest t2 @ x" by auto
  from Seq.IH(2)[OF _ t2(2) t1(2) Seq.prems(4)] Seq.prems(1)
  obtain s2' where "s2' \<in> set (rx_run b U ic t2)" "ms_rest s1' = ms_rest s2' @ x" by auto
  with t2(1) show ?case by auto
next
  case (Alt a b)
  then show ?case by (auto; blast)
next
  case (Rep lo hi g r)
  have "\<exists>s2' \<in> set (rep_loop (rx_run r U ic) lo hi g s2). ms_rest s1' = ms_rest s2' @ x"
  proof (rule rep_loop_restrict[where ?f1.0="rx_run r U ic" and ?s1.0=s1])
    show "ms_rest s1 = ms_rest s2 @ x" by (rule Rep.prems(2))
    show "s1' \<in> set (rep_loop (rx_run r U ic) lo hi g s1)" using Rep.prems(3) by simp
    show "length x \<le> length (ms_rest s1')" by (rule Rep.prems(4))
    show "\<forall>t1 t2 t1'. ms_rest t1 = ms_rest t2 @ x \<longrightarrow> t1' \<in> set (rx_run r U ic t1) \<longrightarrow>
        length x \<le> length (ms_rest t1') \<longrightarrow>
       (\<exists>t2'\<in>set (rx_run r U ic t2). ms_rest t1' = ms_rest t2' @ x)"
      using Rep.IH Rep.prems(1) by simp
    show "\<forall>t t'. t' \<in> set (rx_run r U ic t) \<longrightarrow> length (ms_rest t') \<le> length (ms_rest t)"
      using rx_run_shrinks by blast
  qed
  then show ?case by simp
next
  case (Grp k r)
  from Grp.prems(3) obtain t1 where t1: "t1 \<in> set (rx_run r U ic s1)" "ms_rest s1' = ms_rest t1"
    by auto
  from Grp.IH[OF _ Grp.prems(2) t1(1)] Grp.prems(1,4) t1(2) show ?case by auto
qed (auto dest: step_restrict)

lemma find_value_within_window:
  assumes "0 \<le> w" and "plain v" and "sets_group 1 v" and "re_search l U True tx = Some a"
    and near: "\<exists>p s'. m_end a \<le> p \<and> p \<le> length tx
                \<and> s' \<in> set (rx_run v U True (start_at tx p))
                \<and> int (ms_pos s') \<le> int (m_end a) + w"
  shows "\<exists>x. find_value_after_label U tx l v w = Inr (Some x)"
proof -
  define e where "e = m_end a"
  define snip where "snip = take (nat w) (drop e tx)"
  define x where "x = drop (nat w) (drop e tx)"
  from near obtain p s1' where p: "e \<le> p" "p \<le> length tx"
    and mem1: "s1' \<in> set (rx_run v U True (start_at tx p))"
    and pos: "int (ms_pos s1') \<le> int e + w" unfolding e_def by blast
  define j where "j = p - e"
  have r1: "ms_pos s1' + length (ms_rest s1') = length tx"
    using reaches_length[OF rx_run_reaches[OF mem1]] p(2) by (simp add: start_at_def)
  have pp: "p \<le> ms_pos s1'" using reaches_pos[OF rx_run_reaches[OF mem1]] by (simp add: start_at_def)
  have jw: "j \<le> nat w" using pp pos p(1) assms(1) unfolding j_def by linarith
  have j: "j \<le> length snip" using jw p unfolding j_def snip_def by simp
  have lx: "length x \<le> length (ms_rest s1')"
    using r1 pos assms(1) unfolding x_def by simp
  have "drop j (drop e tx) = drop j snip @ x"
    unfolding snip_def x_def using j[unfolded snip_def] by (rule drop_take_split)
  moreover have "e + j = p" using p(1) by (simp add: j_def)
  ultimately have rest: "ms_rest (start_at tx p) = ms_rest (start_at snip j) @ x"
    by (simp add: start_at_def add.commute)
  from plain_restrict[OF assms(2) rest mem1 lx] obtain s2' where
    "s2' \<in> set (rx_run v U True (start_at snip j))" by blast
  then have "rx_run v U True (start_at snip j) \<noteq> []" by auto
  with re_search_None[of v U True snip] j obtain mv where mv: "re_search v U True snip = Some mv"
    by (cases "re_search v U True snip") auto
  from mv assms(3) have "map_of (m_caps mv) 1 \<noteq> None"
    by (auto simp: re_search_def dest: search_from_group)
  then obtain be where be: "map_of (m_caps mv) 1 = Some be" by auto
  obtain b e' where "be = (b, e')" by (cases be)
  with find_value_exact[OF assms(1), of U tx l v] assms(4) mv be show ?thesis
    by (simp add: snip_def e_def)
qed

text \<open>
  C3. \<open>_find_value_after_label\<close> returns \<open>None\<close> when the label pattern matches nowhere.
  For a window that is not negative its result is determined as follows: the label is
  searched in the whole text and its leftmost match is used; the value pattern is searched
  in the \<open>window\<close> characters after the label's end and nowhere else; without a value
  match there the result is \<open>None\<close>; with one, the result is group 1 of the first value
  match, stripped, which is a span of the text that ends within the window (a value
  pattern whose group 1 is missing or took no part in the match makes the call raise).
  For a value pattern without assertions whose every match sets group 1 (those of every
  call site are such), a value is returned as soon as some match of the value pattern
  in the text starts at or after the label's end and ends within the window, and the
  result is \<open>None\<close> when every such match reaches beyond the window.
\<close>

theorem label_window_search:
  "(re_search l U True text = None \<longrightarrow> find_value_after_label U text l v w = Inr None)
   \<and> (0 \<le> w \<longrightarrow>
        find_value_after_label U text l v w =
          (case re_search l U True text of
             None \<Rightarrow> Inr None
           | Some a \<Rightarrow>
               (case re_search v U True (take (nat w) (drop (m_end a) text)) of
                  None \<Rightarrow> Inr None
                | Some mv \<Rightarrow>
                    (case map_of (m_caps mv) 1 of
                       None \<Rightarrow> Inl (if has_group 1 v then AttributeError else IndexError)
                     | Some (b, e) \<Rightarrow>
                         Inr (Some (py_strip U (span text (m_end a + b) (m_end a + e))))))))
   \<and> (\<forall>x. 0 \<le> w \<and> find_value_after_label U text l v w = Inr (Some x) \<longrightarrow>
        (\<exists>a mv b e. re_search l U True text = Some a
           \<and> (\<forall>q<m_start a. rx_run l U True (start_at text q) = [])
           \<and> re_search v U True (take (nat w) (drop (m_end a) text)) = Some mv
           \<and> map_of (m_caps mv) 1 = Some (b, e)
           \<and> b \<le> e \<and> int e \<le> w \<and> m_end a + e \<le> length text
           \<and> x = py_strip U (span text (m_end a + b) (m_end a + e))))
   \<and> (\<forall>a. 0 \<le> w \<and> plain v \<and> re_search l U True text = Some a
          \<and> (\<forall>p s'. m_end a \<le> p \<and> p \<le> length text
                \<and> s' \<in> set (rx_run v U True (start_at text p))
              \<longrightarrow> int (m_end a) + w < int (ms_pos s'))
        \<longrightarrow> find_value_after_label U text l v w = Inr None)
   \<and> (\<forall>a. 0 \<le> w \<and> plain v \<and> sets_group 1 v \<and> re_search l U True text = Some a
          \<and> (\<exists>p s'. m_end a \<le> p \<and> p \<le> length text
                \<and> s' \<in> set (rx_run v U True (start_at text p))
                \<and> int (ms_pos s') \<le> int (m_end a) + w)
        \<longrightarrow> (\<exists>x. find_value_after_label U text l v w = Inr (Some x)))
   \<and> plain dollar_amount \<and> plain rupee_amount \<and> plain slash_date
   \<and> sets_group 1 dollar_amount \<and> sets_group 1 rupee_amount \<and> sets_group 1 slash_date"
proof -
  have 1: "re_search l U True text = None \<longrightarrow> find_value_after_label U text l v w = Inr None"
    using find_value_label_absent by blast
  have 2: "0 \<le> w \<longrightarrow>
        find_value_after_label U text l v w =
          (case re_search l U True text of
             None \<Rightarrow> Inr None
           | Some a \<Rightarrow>
               (case re_search v U True (take (nat w) (drop (m_end a) text)) of
                  None \<Rightarrow> Inr None
                | Some mv \<Rightarrow>
                    (case map_of (m_caps mv) 1 of
                       None \<Rightarrow> Inl (if has_group 1 v then AttributeError else IndexError)
                     | Some (b, e) \<Rightarrow>
                         Inr (Some (py_strip U (span text (m_end a + b) (m_end a + e)))))))"
    using find_value_exact[of w U "text" l v] by blast
  have 3: "\<forall>x. 0 \<le> w \<and> find_value_after_label U text l v w = Inr (Some x) \<longrightarrow>
        (\<exists>a mv b e. re_search l U True text = Some a
           \<and> (\<forall>q<m_start a. rx_run l U True (start_at text q) = [])
           \<and> re_search v U True (take (nat w) (drop (m_end a) text)) = Some mv
           \<and> map_of (m_caps mv) 1 = Some (b, e)
           \<and> b \<le> e \<and> int e \<le> w \<and> m_end a + e \<le> length text
           \<and> x = py_strip U (span text (m_end a + b) (m_end a + e)))"
    using find_value_found[of w U "text" l v] by blast
  have 4: "\<forall>a. 0 \<le> w \<and> plain v \<and> re_search l U True text = Some a
          \<and> (\<forall>p s'. m_end a \<le> p \<and> p \<le> length text
                \<and> s' \<in> set (rx_run v U True (start_at text p))
              \<longrightarrow> int (m_end a) + w < int (ms_pos s'))
        \<longrightarrow> find_value_after_label U text l v w = Inr None"
    using find_value_beyond_window[of w v l U "text"] by blast
  have 5: "\<forall>a. 0 \<le> w \<and> plain v \<and> sets_group 1 v \<and> re_search l U True text = Some a
          \<and> (\<exists>p s'. m_end a \<le> p \<and> p \<le> length text
                \<and> s' \<in> set (rx_run v U True (start_at text p))
                \<and> int (ms_pos s') \<le> int (m_end a) + w)
        \<longrightarrow> (\<exists>x. find_value_after_label U text l v w = Inr (Some x))"
    using find_value_within_window[of w v l U "text"] by blast
  from 1 2 3 4 5 plain_values sets_group_amounts(1,2,3) show ?thesis by blast
qed

lemma all_le_list_all: "(\<forall>p. p \<le> n \<longrightarrow> P p) \<longleftrightarrow> list_all P [0..<Suc n]"
  by (auto simp: list_all_iff less_Suc_eq_le)

theorem label_window_search_witness:
  "find_value_after_label ascii_db (ascii ''Total due 12.00'') b4_new_balance dollar_amount 5 = Inr None
   \<and> find_value_after_label ascii_db (ascii ''NEW BALANCE $1,234.56'') b4_new_balance dollar_amount 30
       = Inr (Some (ascii ''1,234.56''))
   \<and> (\<exists>a mv b e. re_search b4_new_balance ascii_db True (ascii ''NEW BALANCE $1,234.56'') = Some a
         \<and> re_search dollar_amount ascii_db True
              (take (nat 30) (drop (m_end a) (ascii ''NEW BALANCE $1,234.56''))) = Some mv
         \<and> map_of (m_caps mv) 1 = Some (b, e) \<and> int e \<le> 30)
   \<and> find_value_after_label ascii_db far_text b4_new_balance dollar_amount 5 = Inr None
   \<and> (\<exists>x. find_value_after_label ascii_db far_text b4_new_balance dollar_amount 12 = Inr (Some x))"
proof -
  note thm1 = label_window_search[of b4_new_balance ascii_db "ascii ''Total due 12.00''" dollar_amount 5]
  note thm2 = label_window_search[of b4_new_balance ascii_db "ascii ''NEW BALANCE $1,234.56''"
      dollar_amount 30]
  note thm3 = label_window_search[of b4_new_balance ascii_db far_text dollar_amount 5]
  note thm4 = label_window_search[of b4_new_balance ascii_db far_text dollar_amount 12]
  have "re_search b4_new_balance ascii_db True (ascii ''Total due 12.00'') = None"
    by code_simp
  with thm1 have 1: "find_value_after_label ascii_db (ascii ''Total due 12.00'') b4_new_balance
      dollar_amount 5 = Inr None" by blast
  have z: "(0::int) \<le> 30" "(0::int) \<le> 5" "(0::int) \<le> 12" by simp_all
  have v2: "(case re_search b4_new_balance ascii_db True (ascii ''NEW BALANCE $1,234.56'') of
             None \<Rightarrow> Inr None
           | Some a \<Rightarrow>
               (case re_search dollar_amount ascii_db True
                       (take (nat 30) (drop (m_end a) (ascii ''NEW BALANCE $1,234.56''))) of
                  None \<Rightarrow> Inr None
                | Some mv \<Rightarrow>
                    (case map_of (m_caps mv) 1 of
                       None \<Rightarrow> Inl (if has_group 1 dollar_amount then AttributeError else IndexError)
                     | Some (b, e) \<Rightarrow>
                         Inr (Some (py_strip ascii_db
                            (span (ascii ''NEW BALANCE $1,234.56'') (m_end a + b) (m_end a + e)))))))
        = Inr (Some (ascii ''1,234.56''))"
    by code_simp
  from thm2 z(1) have "find_value_after_label ascii_db (ascii ''NEW BALANCE $1,234.56'') b4_new_balance
      dollar_amount 30 =
         (case re_search b4_new_balance ascii_db True (ascii ''NEW BALANCE $1,234.56'') of
             None \<Rightarrow> Inr None
           | Some a \<Rightarrow>
               (case re_search dollar_amount ascii_db True
                       (take (nat 30) (drop (m_end a) (ascii ''NEW BALANCE $1,234.56''))) of
                  None \<Rightarrow> Inr None
                | Some mv \<Rightarrow>
                    (case map_of (m_caps mv) 1 of
                       None \<Rightarrow> Inl (if has_group 1 dollar_amount then AttributeError else IndexError)
                     | Some (b, e) \<Rightarrow>
                         Inr (Some (py_strip ascii_db
                            (span (ascii ''NEW BALANCE $1,234.56'') (m_end a + b) (m_end a + e)))))))"
    by blast
  with v2 have 2: "find_value_after_label ascii_db (ascii ''NEW BALANCE $1,234.56'') b4_new_balance
      dollar_amount 30 = Inr (Some (ascii ''1,234.56''))"
    by (rule trans[rotated])
  from thm2 2 z(1) have 3: "\<exists>a mv b e. re_search b4_new_balance ascii_db True (ascii ''NEW BALANCE $1,234.56'') = Some a
         \<and> re_search dollar_amount ascii_db True
              (take (nat 30) (drop (m_end a) (ascii ''NEW BALANCE $1,234.56''))) = Some mv
         \<and> map_of (m_caps mv) 1 = Some (b, e) \<and> int e \<le> 30"
    by blast
  have a: "re_search b4_new_balance ascii_db True far_text
      = Some \<lparr>m_start = 0, m_end = 11, m_caps = []\<rparr>"
    by code_simp
  have len: "length far_text = 23" by (simp add: far_text_def ascii_def)
  have "list_all (\<lambda>p. list_all (\<lambda>s'. 11 \<le> p \<longrightarrow> 16 < ms_pos s')
           (rx_run dollar_amount ascii_db True (start_at far_text p))) [0..<Suc 23]"
    by code_simp
  then have "\<forall>p. p \<le> 23 \<longrightarrow> list_all (\<lambda>s'. 11 \<le> p \<longrightarrow> 16 < ms_pos s')
           (rx_run dollar_amount ascii_db True (start_at far_text p))"
    by (simp only: all_le_list_all)
  then have far: "\<forall>p s'. m_end \<lparr>m_start = 0, m_end = 11, m_caps = []\<rparr> \<le> p \<and> p \<le> length far_text
       \<and> s' \<in> set (rx_run dollar_amount ascii_db True (start_at far_text p))
       \<longrightarrow> int (m_end \<lparr>m_start = 0, m_end = 11, m_caps = []\<rparr>) + 5 < int (ms_pos s')"
    by (auto simp: len list_all_iff)
  from thm3 a far z(2) have 4:
    "find_value_after_label ascii_db far_text b4_new_balance dollar_amount 5 = Inr None"
    by blast
  have "list_ex (\<lambda>s'. ms_pos s' \<le> 23) (rx_run dollar_amount ascii_db True (start_at far_text 18))"
    by code_simp
  then obtain s' where s': "s' \<in> set (rx_run dollar_amount ascii_db True (start_at far_text 18))"
    "ms_pos s' \<le> 23" by (auto simp: list_ex_iff)
  have near: "\<exists>p s'. m_end \<lparr>m_start = 0, m_end = 11, m_caps = []\<rparr> \<le> p \<and> p \<le> length far_text
       \<and> s' \<in> set (rx_run dollar_amount ascii_db True (start_at far_text p))
       \<and> int (ms_pos s') \<le> int (m_end \<lparr>m_start = 0, m_end = 11, m_caps = []\<rparr>) + 12"
    using s' by (intro exI[of _ 18] exI[of _ s']) (simp add: len)
  from thm4 a near z(3) have 5:
    "\<exists>x. find_value_after_label ascii_db far_text b4_new_balance dollar_amount 12 = Inr (Some x)"
    by blast
  from 1 2 3 4 5 show ?thesis by blast
qed

section \<open>Properties of the matcher: the scan of findall and sub\<close>

lemma try_at_SomeD:
  assumes "try_at r U ic adv p pv cs = Some a"
  shows "m_start a = p \<and> p \<le> m_end a \<and> (adv \<longrightarrow> m_end a \<noteq> p)
     \<and> (\<exists>s \<in> set (rx_run r U ic \<lparr>ms_pos = p, ms_prev = pv, ms_rest = cs, ms_caps = []\<rparr>).
           m_end a = ms_pos s \<and> m_caps a = ms_caps s)"
proof -
  let ?s0 = "\<lparr>ms_pos = p, ms_prev = pv, ms_rest = cs, ms_caps = []\<rparr>"
  from assms obtain s where s: "find (\<lambda>s. adv \<longrightarrow> ms_pos s \<noteq> p) (rx_run r U ic ?s0) = Some s"
    "a = \<lparr>m_start = p, m_end = ms_pos s, m_caps = ms_caps s\<rparr>"
    by (auto simp: try_at_def)
  from s(1) have mem: "s \<in> set (rx_run r U ic ?s0)" and adv: "adv \<longrightarrow> ms_pos s \<noteq> p"
    by (auto simp: find_Some_iff)
  have "p \<le> ms_pos s" using reaches_pos[OF rx_run_reaches[OF mem]] by simp
  with s(2) mem adv show ?thesis by auto
qed

lemma matches_here_cases:
  assumes "a \<in> set (matches_here r U ic resume p pv cs)"
  shows "resume \<le> p \<and> (try_at r U ic False p pv cs = Some a
           \<or> (try_at r U ic True p pv cs = Some a
               \<and> (\<exists>b. try_at r U ic False p pv cs = Some b \<and> m_end b = p)))"
proof (cases "try_at r U ic False p pv cs")
  case None
  with assms show ?thesis by (simp add: matches_here_def split: if_splits)
next
  case (Some b)
  with assms show ?thesis
    by (cases "try_at r U ic True p pv cs") (auto simp: matches_here_def split: if_splits)
qed

lemma matches_here_D:
  assumes "a \<in> set (matches_here r U ic resume p pv cs)"
  shows "resume \<le> p \<and> m_start a = p \<and> p \<le> m_end a
     \<and> (\<exists>s \<in> set (rx_run r U ic \<lparr>ms_pos = p, ms_prev = pv, ms_rest = cs, ms_caps = []\<rparr>).
           m_end a = ms_pos s \<and> m_caps a = ms_caps s)"
proof -
  from matches_here_cases[OF assms] obtain adv where "resume \<le> p" "try_at r U ic adv p pv cs = Some a"
    by blast
  with try_at_SomeD[of r U ic adv p pv cs a] show ?thesis by blast
qed

lemma matches_here_last:
  assumes "a \<in> set (matches_here r U ic resume p pv cs)"
  shows "m_end a \<le> m_end (last (matches_here r U ic resume p pv cs))"
proof (cases "try_at r U ic False p pv cs")
  case None
  with assms show ?thesis by (simp add: matches_here_def split: if_splits)
next
  case (Some b)
  show ?thesis
  proof (cases "try_at r U ic True p pv cs")
    case None
    with Some assms show ?thesis by (auto simp: matches_here_def split: if_splits)
  next
    case c: (Some c)
    from try_at_SomeD[OF c] have "p \<le> m_end c" by simp
    with Some c assms show ?thesis by (auto simp: matches_here_def split: if_splits)
  qed
qed

lemma matches_here_sorted:
  "sorted (map m_end (matches_here r U ic resume p pv cs))
   \<and> sorted (map m_start (matches_here r U ic resume p pv cs))"
proof (cases "try_at r U ic False p pv cs")
  case None
  then show ?thesis by (simp add: matches_here_def)
next
  case (Some b)
  from try_at_SomeD[OF Some] have b: "m_start b = p" by simp
  show ?thesis
  proof (cases "try_at r U ic True p pv cs")
    case None
    with Some show ?thesis by (simp add: matches_here_def)
  next
    case c: (Some c)
    from try_at_SomeD[OF c] have "p \<le> m_end c" "m_start c = p" by simp_all
    with Some c b show ?thesis by (simp add: matches_here_def)
  qed
qed

lemma matches_here_complete:
  assumes "resume \<le> p"
    and "rx_run r U ic \<lparr>ms_pos = p, ms_prev = pv, ms_rest = cs, ms_caps = []\<rparr> \<noteq> []"
  shows "matches_here r U ic resume p pv cs \<noteq> []"
  using assms by (auto simp: matches_here_def try_at_False split: option.splits list.splits)

text \<open>What the scan from offset p reports, in terms of the whole text.\<close>

lemma iter_from_sound:
  "p \<le> length text \<Longrightarrow> drop p text = cs \<Longrightarrow> pv = ms_prev (start_at text p) \<Longrightarrow>
   a \<in> set (iter_from r U ic resume p pv cs) \<Longrightarrow>
   p \<le> m_start a \<and> resume \<le> m_start a \<and> m_start a \<le> m_end a \<and> m_start a \<le> length text
   \<and> (\<exists>s \<in> set (rx_run r U ic (start_at text (m_start a))).
          m_end a = ms_pos s \<and> m_caps a = ms_caps s)"
proof (induction cs arbitrary: p pv resume)
  case Nil
  have st: "\<lparr>ms_pos = p, ms_prev = pv, ms_rest = [], ms_caps = []\<rparr> = start_at text p"
    using Nil.prems by (simp add: start_at_def)
  from Nil.prems(4) have "a \<in> set (matches_here r U ic resume p pv [])"
    by (subst (asm) iter_from.simps) (simp add: Let_def)
  from matches_here_D[OF this] st Nil.prems(1) show ?case by auto
next
  case (Cons c cs)
  have st: "\<lparr>ms_pos = p, ms_prev = pv, ms_rest = c # cs, ms_caps = []\<rparr> = start_at text p"
    using Cons.prems by (simp add: start_at_def)
  let ?here = "matches_here r U ic resume p pv (c # cs)"
  let ?resume' = "if ?here = [] then resume else m_end (last ?here)"
  from Cons.prems(4) have
    "a \<in> set ?here \<or> a \<in> set (iter_from r U ic ?resume' (Suc p) (Some c) cs)"
    by (subst (asm) iter_from.simps) (auto simp: Let_def)
  then show ?case
  proof
    assume "a \<in> set ?here"
    from matches_here_D[OF this] st Cons.prems(1) show ?thesis by auto
  next
    assume rec: "a \<in> set (iter_from r U ic ?resume' (Suc p) (Some c) cs)"
    have lt: "p < length text" using Cons.prems(2) by (cases "p < length text") auto
    have nx: "start_at text (Suc p) = \<lparr>ms_pos = Suc p, ms_prev = Some c, ms_rest = cs, ms_caps = []\<rparr>"
      using Cons.prems(2) by (rule start_at_Suc)
    have d: "drop (Suc p) text = cs" using nx by (simp add: start_at_def)
    have pv': "Some c = ms_prev (start_at text (Suc p))" using nx by simp
    have ih: "Suc p \<le> m_start a \<and> ?resume' \<le> m_start a \<and> m_start a \<le> m_end a
        \<and> m_start a \<le> length text
        \<and> (\<exists>s \<in> set (rx_run r U ic (start_at text (m_start a))).
          m_end a = ms_pos s \<and> m_caps a = ms_caps s)"
      using Cons.IH[OF _ d pv' rec] lt by simp
    have "resume \<le> ?resume'"
    proof (cases "?here = []")
      case True then show ?thesis by simp
    next
      case False
      then have "last ?here \<in> set ?here" by simp
      from matches_here_D[OF this] False show ?thesis by simp
    qed
    with ih show ?thesis by auto
  qed
qed

lemma iter_from_ends:
  "p \<le> length text \<Longrightarrow> drop p text = cs \<Longrightarrow> pv = ms_prev (start_at text p) \<Longrightarrow>
   sorted (map m_end (iter_from r U ic resume p pv cs))
   \<and> sorted (map m_start (iter_from r U ic resume p pv cs))"
proof (induction cs arbitrary: p pv resume)
  case Nil
  have "sorted (map m_end (matches_here r U ic resume p pv []))
      \<and> sorted (map m_start (matches_here r U ic resume p pv []))"
    by (rule matches_here_sorted)
  then show ?case by (subst (1 2) iter_from.simps) (simp add: Let_def)
next
  case (Cons c cs)
  let ?here = "matches_here r U ic resume p pv (c # cs)"
  let ?resume' = "if ?here = [] then resume else m_end (last ?here)"
  let ?rest = "iter_from r U ic ?resume' (Suc p) (Some c) cs"
  have unfold: "iter_from r U ic resume p pv (c # cs) = ?here @ ?rest"
    by (subst iter_from.simps) (simp add: Let_def)
  have lt: "p < length text" using Cons.prems(2) by (cases "p < length text") auto
  have nx: "start_at text (Suc p) = \<lparr>ms_pos = Suc p, ms_prev = Some c, ms_rest = cs, ms_caps = []\<rparr>"
    using Cons.prems(2) by (rule start_at_Suc)
  have d: "drop (Suc p) text = cs" using nx by (simp add: start_at_def)
  have pv': "Some c = ms_prev (start_at text (Suc p))" using nx by simp
  have ih: "sorted (map m_end ?rest) \<and> sorted (map m_start ?rest)"
    using Cons.IH[OF _ d pv'] lt by simp
  have h: "sorted (map m_end ?here) \<and> sorted (map m_start ?here)"
    by (rule matches_here_sorted)
  have cross: "m_end a \<le> m_end b \<and> m_start a \<le> m_start b"
    if a: "a \<in> set ?here" and b: "b \<in> set ?rest" for a b
  proof -
    from iter_from_sound[OF _ d pv' b] lt have b': "Suc p \<le> m_start b" "?resume' \<le> m_start b"
      "m_start b \<le> m_end b" by simp_all
    from a have ne: "?here \<noteq> []" by auto
    from matches_here_last[OF a] ne b' have "m_end a \<le> m_end b" by simp
    moreover from matches_here_D[OF a] b'(1) have "m_start a \<le> m_start b" by simp
    ultimately show ?thesis by simp
  qed
  show ?case
    unfolding unfold using h ih cross by (auto simp: sorted_append)
qed

lemma iter_from_complete:
  "p \<le> length text \<Longrightarrow> drop p text = cs \<Longrightarrow> pv = ms_prev (start_at text p) \<Longrightarrow>
   p \<le> q \<Longrightarrow> q \<le> length text \<Longrightarrow> rx_run r U ic (start_at text q) \<noteq> [] \<Longrightarrow>
   q < resume \<or> (\<exists>a \<in> set (iter_from r U ic resume p pv cs). m_start a = q \<or> q < m_end a)"
proof (induction cs arbitrary: p pv resume)
  case Nil
  have st: "\<lparr>ms_pos = p, ms_prev = pv, ms_rest = [], ms_caps = []\<rparr> = start_at text p"
    using Nil.prems by (simp add: start_at_def)
  have "length text \<le> p" using Nil.prems(2) by simp
  with Nil.prems have qp: "q = p" by simp
  show ?case
  proof (cases "q < resume")
    case False
    with qp have "matches_here r U ic resume p pv [] \<noteq> []"
      using matches_here_complete[of resume p r U ic pv "[]"] st Nil.prems(6) by simp
    then obtain a where a: "a \<in> set (matches_here r U ic resume p pv [])"
      by (cases "matches_here r U ic resume p pv []") auto
    then have "a \<in> set (iter_from r U ic resume p pv [])"
      by (subst iter_from.simps) (simp add: Let_def)
    with matches_here_D[OF a] qp show ?thesis by auto
  qed simp
next
  case (Cons c cs)
  have st: "\<lparr>ms_pos = p, ms_prev = pv, ms_rest = c # cs, ms_caps = []\<rparr> = start_at text p"
    using Cons.prems by (simp add: start_at_def)
  let ?here = "matches_here r U ic resume p pv (c # cs)"
  let ?resume' = "if ?here = [] then resume else m_end (last ?here)"
  let ?rest = "iter_from r U ic ?resume' (Suc p) (Some c) cs"
  have unfold: "iter_from r U ic resume p pv (c # cs) = ?here @ ?rest"
    by (subst iter_from.simps) (simp add: Let_def)
  have lt: "p < length text" using Cons.prems(2) by (cases "p < length text") auto
  have nx: "start_at text (Suc p) = \<lparr>ms_pos = Suc p, ms_prev = Some c, ms_rest = cs, ms_caps = []\<rparr>"
    using Cons.prems(2) by (rule start_at_Suc)
  have d: "drop (Suc p) text = cs" using nx by (simp add: start_at_def)
  have pv': "Some c = ms_prev (start_at text (Suc p))" using nx by simp
  show ?case
  proof (cases "q = p")
    case True
    show ?thesis
    proof (cases "q < resume")
      case False
      with True have "?here \<noteq> []"
        using matches_here_complete[of resume p r U ic pv "c # cs"] st Cons.prems(6) by simp
      then obtain a where a: "a \<in> set ?here" by (cases ?here) auto
      with matches_here_D[OF a] True show ?thesis unfolding unfold by auto
    qed simp
  next
    case False
    then have q: "Suc p \<le> q" using Cons.prems(4) by simp
    from Cons.IH[OF _ d pv' q Cons.prems(5,6), of ?resume'] lt
    have ih: "q < ?resume' \<or> (\<exists>a \<in> set ?rest. m_start a = q \<or> q < m_end a)" by simp
    then show ?thesis
    proof
      assume r: "q < ?resume'"
      show ?thesis
      proof (cases "?here = []")
        case True
        with r show ?thesis by simp
      next
        case ne: False
        then have "last ?here \<in> set ?here" by simp
        with r ne show ?thesis unfolding unfold by auto
      qed
    next
      assume "\<exists>a \<in> set ?rest. m_start a = q \<or> q < m_end a"
      then show ?thesis unfolding unfold by auto
    qed
  qed
qed

lemma sorted_le_last: "sorted xs \<Longrightarrow> x \<in> set xs \<Longrightarrow> x \<le> last xs"
  by (induction xs) (auto split: if_splits)

lemma finditer_last:
  assumes "finditer r U ic text \<noteq> []"
  shows "(\<forall>a \<in> set (finditer r U ic text). m_start a \<le> m_start (last (finditer r U ic text)))
     \<and> (\<forall>q. q \<le> length text \<and> rx_run r U ic (start_at text q) \<noteq> []
            \<longrightarrow> q \<le> m_start (last (finditer r U ic text))
                \<or> q < m_end (last (finditer r U ic text)))"
proof -
  let ?ms = "finditer r U ic text"
  have init: "0 \<le> length text" "drop 0 text = text" "None = ms_prev (start_at text 0)"
    by (simp_all add: start_at_def)
  have srt: "sorted (map m_end ?ms)" "sorted (map m_start ?ms)"
    using iter_from_ends[OF init, of r U ic 0] by (simp_all add: finditer_def)
  have s: "m_start a \<le> m_start (last ?ms)" if "a \<in> set ?ms" for a
    using sorted_le_last[OF srt(2), of "m_start a"] that assms by (simp add: last_map)
  have e: "m_end a \<le> m_end (last ?ms)" if "a \<in> set ?ms" for a
    using sorted_le_last[OF srt(1), of "m_end a"] that assms by (simp add: last_map)
  have "q \<le> m_start (last ?ms) \<or> q < m_end (last ?ms)"
    if "q \<le> length text" "rx_run r U ic (start_at text q) \<noteq> []" for q
  proof -
    from iter_from_complete[OF init _ that, of 0] obtain a where
      "a \<in> set ?ms" "m_start a = q \<or> q < m_end a"
      by (auto simp: finditer_def)
    with s[of a] e[of a] show ?thesis by auto
  qed
  with s show ?thesis by blast
qed

lemma finditer_group:
  assumes "a \<in> set (finditer r U ic text)" and "sets_group k r"
  shows "\<exists>g. group text a k = Some g"
proof -
  have init: "0 \<le> length text" "drop 0 text = text" "None = ms_prev (start_at text 0)"
    by (simp_all add: start_at_def)
  from iter_from_sound[OF init, of a r U ic 0] assms(1) obtain s where
    "s \<in> set (rx_run r U ic (start_at text (m_start a)))" "m_caps a = ms_caps s"
    by (auto simp: finditer_def)
  with rx_run_sets_group[OF assms(2)] show ?thesis
    by (auto simp: group_def has_cap_def)
qed

subsection \<open>Bank 1: the balance\<close>

lemma bind_res_Inr: "bind_res x f = Inr y \<longleftrightarrow> (\<exists>z. x = Inr z \<and> f z = Inr y)"
  by (cases x) auto

lemma group_into_other:
  "group_into text m k f key out = Inr out' \<Longrightarrow> key \<noteq> k0 \<Longrightarrow> out' k0 = out k0"
  by (auto simp: group_into_def bind_res_Inr split: option.splits)

lemma search_into_other:
  "search_into U text r k f key out = Inr out' \<Longrightarrow> key \<noteq> k0 \<Longrightarrow> out' k0 = out k0"
  unfolding search_into_def by (rule group_into_other)

lemma parse_bank_1_total_balance:
  assumes "parse_bank_1 U text = Inr out"
  shows "out ''total_balance'' =
     (if findall1 b1_balance U True text \<noteq> []
      then Some (Some (clean_amount U (last (findall1 b1_balance U True text))))
      else Some None)"
proof -
  define o1 where "o1 = (if findall1 b1_balance U True text \<noteq> []
     then empty_fields(''total_balance'' \<mapsto> Some (clean_amount U (last (findall1 b1_balance U True text))))
     else empty_fields)"
  from assms obtain o2 o3 o4 where
    2: "search_into U text b1_due 1 (stripped U) ''payment_due_date'' o1 = Inr o2" and
    3: "search_into U text b1_minimum 1 (cleaned U) ''minimum_payment'' o2 = Inr o3" and
    4: "search_into U text b1_account 1 (last4_of U) ''last4'' o3 = Inr o4" and
    5: "search_into U text b1_closing 2 (stripped U) ''statement_closing_date'' o4 = Inr out"
    unfolding parse_bank_1_def Let_def o1_def[symmetric] bind_res_Inr by blast
  have "out ''total_balance'' = o1 ''total_balance''"
    using search_into_other[OF 2, of "''total_balance''"] search_into_other[OF 3, of "''total_balance''"]
      search_into_other[OF 4, of "''total_balance''"] search_into_other[OF 5, of "''total_balance''"]
    by simp
  then show ?thesis by (simp add: o1_def empty_fields_apply in_fields)
qed

text \<open>
  C6. \<open>parse_bank_1\<close> takes the total balance from the last element of the scan for
  \<open>New Balance\<close> followed by an amount: the value is group 1 of that match, cleaned; no
  match of the scan starts after it, and no offset of the text at which the pattern
  matches lies at or beyond that match's end and after its start. So with the label
  shown several times, each with its amount, the amount of the last one is taken.
\<close>

theorem bank1_balance_last_occurrence:
  "\<exists>out. parse_bank_1 U text = Inr out
     \<and> (finditer b1_balance U True text = [] \<longrightarrow> out ''total_balance'' = Some None)
     \<and> (finditer b1_balance U True text \<noteq> [] \<longrightarrow>
          (\<exists>g. group text (last (finditer b1_balance U True text)) 1 = Some g
              \<and> out ''total_balance'' = Some (Some (clean_amount U g)))
          \<and> (\<forall>a \<in> set (finditer b1_balance U True text).
                m_start a \<le> m_start (last (finditer b1_balance U True text)))
          \<and> (\<forall>q. q \<le> length text \<and> rx_run b1_balance U True (start_at text q) \<noteq> []
                \<longrightarrow> q \<le> m_start (last (finditer b1_balance U True text))
                    \<or> q < m_end (last (finditer b1_balance U True text))))"
proof -
  let ?ms = "finditer b1_balance U True text"
  from parse_bank_1_dom obtain out where out: "parse_bank_1 U text = Inr out" by blast
  note tb = parse_bank_1_total_balance[OF out]
  have map: "findall1 b1_balance U True text
      = map (\<lambda>a. case group text a 1 of None \<Rightarrow> [] | Some v \<Rightarrow> v) ?ms"
    by (simp add: findall1_def)
  have empty: "out ''total_balance'' = Some None" if "?ms = []"
    using tb that by (simp add: map)
  have sg: "sets_group 1 b1_balance" by (simp add: b1_balance_def frag_defs)
  have nonempty: "\<exists>g. group text (last ?ms) 1 = Some g
              \<and> out ''total_balance'' = Some (Some (clean_amount U g))" if ne: "?ms \<noteq> []"
  proof -
    from ne have "last ?ms \<in> set ?ms" by simp
    from finditer_group[OF this sg] obtain g where g: "group text (last ?ms) 1 = Some g" by blast
    have "last (findall1 b1_balance U True text) = g"
      using ne g by (simp add: map last_map)
    with tb ne g show ?thesis by (simp add: map)
  qed
  show ?thesis using out empty nonempty finditer_last[of b1_balance U True "text"] by blast
qed

theorem bank1_balance_last_occurrence_witness:
  "finditer b1_balance ascii_db True two_balances \<noteq> []
   \<and> m_start (last (finditer b1_balance ascii_db True two_balances)) = 48
   \<and> group two_balances (last (finditer b1_balance ascii_db True two_balances)) 1
       = Some (ascii ''250.00'')
   \<and> (\<exists>out. parse_bank_1 ascii_db two_balances = Inr out
         \<and> out ''total_balance'' = Some (Some (ascii ''250.00'')))"
proof -
  have ms: "finditer b1_balance ascii_db True two_balances =
      [\<lparr>m_start = 0, m_end = 19, m_caps = [(1, 13, 19)]\<rparr>,
       \<lparr>m_start = 48, m_end = 68, m_caps = [(1, 62, 68)]\<rparr>]"
    by code_simp
  have g: "group two_balances (last (finditer b1_balance ascii_db True two_balances)) 1
       = Some (ascii ''250.00'')"
    unfolding ms by code_simp
  have c: "clean_amount ascii_db (ascii ''250.00'') = ascii ''250.00''"
    by code_simp
  from bank1_balance_last_occurrence[of ascii_db two_balances] ms g c
  have "\<exists>out. parse_bank_1 ascii_db two_balances = Inr out
         \<and> out ''total_balance'' = Some (Some (ascii ''250.00''))"
    by auto
  with ms g show ?thesis by simp
qed

section \<open>Properties of the matcher: following the preferred success\<close>

lemma moved_Nil: "moved s [] = s"
  by (simp add: moved_def)

lemma moved_moved: "moved (moved s u) w = moved s (u @ w)"
  by (simp add: moved_def add.commute)


lemma step_hit: "ms_rest s = d # t \<Longrightarrow> P d \<Longrightarrow> step P s = [moved s [d]]"
  by (simp add: step_def moved_def)

lemma step_miss: "ms_rest s = [] \<or> \<not> P (hd (ms_rest s)) \<Longrightarrow> step P s = []"
  by (cases "ms_rest s") (auto simp: step_def)

lemma star_stop:
  assumes "ms_rest s = [] \<or> \<not> P (hd (ms_rest s))"
  shows "rep_loop (step P) 0 None g s = [s]"
  using step_miss[of s P] assms by (subst rep_loop.simps) simp

lemma star_run:
  "ms_rest s = w @ t \<Longrightarrow> list_all P w \<Longrightarrow> t = [] \<or> \<not> P (hd t) \<Longrightarrow>
   prefers (rep_loop (step P) 0 None True s) (moved s w)"
proof (induction w arbitrary: s)
  case Nil
  then show ?case using star_stop[of s P True] by (auto simp: prefers_def moved_Nil)
next
  case (Cons d w)
  have st: "step P s = [moved s [d]]" using Cons.prems by (intro step_hit) auto
  have r: "ms_rest (moved s [d]) = w @ t" using Cons.prems(1) by (simp add: moved_def)
  have "prefers (rep_loop (step P) 0 None True (moved s [d])) (moved (moved s [d]) w)"
    using Cons.IH[OF r] Cons.prems by simp
  then obtain ss where "rep_loop (step P) 0 None True (moved s [d]) = moved s (d # w) # ss"
    by (auto simp: prefers_def moved_moved)
  moreover have "length (ms_rest (moved s [d])) < length (ms_rest s)"
    using Cons.prems(1) by (simp add: moved_def)
  ultimately show ?case using st by (subst rep_loop.simps) (simp add: prefers_def)
qed

lemma plus_run:
  assumes "ms_rest s = w @ t" and "list_all P w" and "t = [] \<or> \<not> P (hd t)" and "w \<noteq> []"
  shows "prefers (rep_loop (step P) (Suc 0) None True s) (moved s w)"
proof -
  from assms(4) obtain d w' where w: "w = d # w'" by (cases w) auto
  have st: "step P s = [moved s [d]]" using assms w by (intro step_hit) auto
  have r: "ms_rest (moved s [d]) = w' @ t" using assms(1) w by (simp add: moved_def)
  have "prefers (rep_loop (step P) 0 None True (moved s [d])) (moved (moved s [d]) w')"
    using star_run[of "moved s [d]" w' t P] r assms(2,3) w by simp
  then show ?thesis using st w by (subst rep_loop.simps) (auto simp: prefers_def moved_moved)
qed

lemma plus_miss:
  assumes "ms_rest s = [] \<or> \<not> P (hd (ms_rest s))"
  shows "rep_loop (step P) (Suc 0) None g s = []"
  using step_miss[of s P] assms by (subst rep_loop.simps) simp

lemma prefers_seq:
  "prefers (rx_run a U ic s) s1 \<Longrightarrow> prefers (rx_run b U ic s1) s2 \<Longrightarrow>
   prefers (rx_run (Seq a b) U ic s) s2"
  by (auto simp: prefers_def)

lemma prefers_lit:
  "ms_rest s = d # t \<Longrightarrow> lit_ok U ic c d \<Longrightarrow> prefers (rx_run (Lit c) U ic s) (moved s [d])"
  by (simp add: prefers_def step_hit)


lemma rx_run_cls_fun: "rx_run (Cls its) U ic = step (class_ok U ic its)"
  by (rule ext) (simp add: class_ok_def[abs_def])

lemma prefers_star_cls:
  "ms_rest s = w @ t \<Longrightarrow> list_all (class_ok U ic its) w \<Longrightarrow>
   t = [] \<or> \<not> class_ok U ic its (hd t) \<Longrightarrow>
   prefers (rx_run (Star (Cls its)) U ic s) (moved s w)"
  using star_run[of s w t "class_ok U ic its"] by (simp add: Star_def rx_run_cls_fun)

lemma prefers_plus_cls:
  "ms_rest s = w @ t \<Longrightarrow> list_all (class_ok U ic its) w \<Longrightarrow>
   t = [] \<or> \<not> class_ok U ic its (hd t) \<Longrightarrow> w \<noteq> [] \<Longrightarrow>
   prefers (rx_run (Plus (Cls its)) U ic s) (moved s w)"
  using plus_run[of s w t "class_ok U ic its"] by (simp add: Plus_def rx_run_cls_fun)



lemma star_cls_stop:
  "ms_rest s = [] \<or> \<not> class_ok U ic its (hd (ms_rest s)) \<Longrightarrow> rx_run (Star (Cls its)) U ic s = [s]"
  using star_stop[of s "class_ok U ic its" True] by (simp add: Star_def rx_run_cls_fun)


lemma iter_from_nothing:
  "p \<le> length tx \<Longrightarrow> drop p tx = cs \<Longrightarrow> pv = ms_prev (start_at tx p) \<Longrightarrow>
   (\<forall>q. p \<le> q \<and> resume \<le> q \<and> q \<le> length tx \<longrightarrow> rx_run r U ic (start_at tx q) = []) \<Longrightarrow>
   iter_from r U ic resume p pv cs = []"
proof (induction cs arbitrary: p pv)
  case Nil
  have st: "\<lparr>ms_pos = p, ms_prev = pv, ms_rest = [], ms_caps = []\<rparr> = start_at tx p"
    using Nil.prems by (simp add: start_at_def)
  have "matches_here r U ic resume p pv [] = []"
    using Nil.prems(1,4) st by (auto simp: matches_here_def try_at_False)
  then show ?case by (subst iter_from.simps) simp
next
  case (Cons c cs)
  have st: "\<lparr>ms_pos = p, ms_prev = pv, ms_rest = c # cs, ms_caps = []\<rparr> = start_at tx p"
    using Cons.prems by (simp add: start_at_def)
  have here: "matches_here r U ic resume p pv (c # cs) = []"
    using Cons.prems(1,4) st by (auto simp: matches_here_def try_at_False)
  have lt: "p < length tx" using Cons.prems(2) by (cases "p < length tx") auto
  have nx: "start_at tx (Suc p) = \<lparr>ms_pos = Suc p, ms_prev = Some c, ms_rest = cs, ms_caps = []\<rparr>"
    using Cons.prems(2) by (rule start_at_Suc)
  have d: "drop (Suc p) tx = cs" using nx by (simp add: start_at_def)
  have pv': "Some c = ms_prev (start_at tx (Suc p))" using nx by simp
  have "iter_from r U ic resume (Suc p) (Some c) cs = []"
    using Cons.IH[OF _ d pv'] lt Cons.prems(4) by simp
  with here show ?case by (subst iter_from.simps) simp
qed

lemma iter_from_first:
  "p \<le> q \<Longrightarrow> q \<le> length tx \<Longrightarrow> drop p tx = cs \<Longrightarrow> pv = ms_prev (start_at tx p) \<Longrightarrow>
   resume \<le> q \<Longrightarrow> (\<forall>q'. p \<le> q' \<and> q' < q \<longrightarrow> rx_run r U ic (start_at tx q') = []) \<Longrightarrow>
   prefers (rx_run r U ic (start_at tx q)) s \<Longrightarrow> q < ms_pos s \<Longrightarrow>
   (\<forall>q'. ms_pos s \<le> q' \<and> q' \<le> length tx \<longrightarrow> rx_run r U ic (start_at tx q') = []) \<Longrightarrow>
   iter_from r U ic resume p pv cs = [\<lparr>m_start = q, m_end = ms_pos s, m_caps = ms_caps s\<rparr>]"
proof (induction cs arbitrary: p pv)
  case Nil
  have st: "\<lparr>ms_pos = p, ms_prev = pv, ms_rest = [], ms_caps = []\<rparr> = start_at tx p"
    using Nil.prems by (simp add: start_at_def)
  have "length tx \<le> p" using Nil.prems(3) by simp
  with Nil.prems have qp: "q = p" "ms_rest (start_at tx q) = []" by (simp_all add: start_at_def)
  from Nil.prems(7) have "s \<in> set (rx_run r U ic (start_at tx q))" by (auto simp: prefers_def)
  from reaches_length[OF rx_run_reaches[OF this]] qp(2) have "ms_pos s \<le> q"
    by (simp add: start_at_def)
  with Nil.prems(8) show ?case by simp
next
  case (Cons c cs)
  have st: "\<lparr>ms_pos = p, ms_prev = pv, ms_rest = c # cs, ms_caps = []\<rparr> = start_at tx p"
    using Cons.prems by (simp add: start_at_def)
  have lt: "p < length tx" using Cons.prems(3) by (cases "p < length tx") auto
  have nx: "start_at tx (Suc p) = \<lparr>ms_pos = Suc p, ms_prev = Some c, ms_rest = cs, ms_caps = []\<rparr>"
    using Cons.prems(3) by (rule start_at_Suc)
  have d: "drop (Suc p) tx = cs" using nx by (simp add: start_at_def)
  have pv': "Some c = ms_prev (start_at tx (Suc p))" using nx by simp
  let ?m = "\<lparr>m_start = q, m_end = ms_pos s, m_caps = ms_caps s\<rparr>"
  show ?case
  proof (cases "q = p")
    case True
    from Cons.prems(7) obtain ss where run: "rx_run r U ic (start_at tx p) = s # ss"
      using True by (auto simp: prefers_def)
    have here: "matches_here r U ic resume p pv (c # cs) = [?m]"
      using Cons.prems(5,8) True run st by (simp add: matches_here_def try_at_False)
    have "iter_from r U ic (ms_pos s) (Suc p) (Some c) cs = []"
      by (rule iter_from_nothing[OF _ d pv']) (use lt Cons.prems(9) in auto)
    with here show ?thesis by (subst iter_from.simps) simp
  next
    case False
    then have pq: "Suc p \<le> q" using Cons.prems(1) by simp
    have "rx_run r U ic (start_at tx p) = []" using Cons.prems(1,6) False by simp
    then have here: "matches_here r U ic resume p pv (c # cs) = []"
      using st by (auto simp: matches_here_def try_at_False)
    have "iter_from r U ic resume (Suc p) (Some c) cs = [?m]"
      by (rule Cons.IH[OF pq Cons.prems(2) d pv' Cons.prems(5) _ Cons.prems(7,8,9)])
         (use Cons.prems(6) in auto)
    with here show ?thesis by (subst iter_from.simps) simp
  qed
qed

lemma finditer_nothing:
  "(\<forall>q. q \<le> length tx \<longrightarrow> rx_run r U ic (start_at tx q) = []) \<Longrightarrow> finditer r U ic tx = []"
  unfolding finditer_def
  by (rule iter_from_nothing[where tx=tx]) (simp_all add: start_at_def)

lemma finditer_single:
  "q \<le> length tx \<Longrightarrow> (\<forall>q'<q. rx_run r U ic (start_at tx q') = []) \<Longrightarrow>
   prefers (rx_run r U ic (start_at tx q)) s \<Longrightarrow> q < ms_pos s \<Longrightarrow>
   (\<forall>q'. ms_pos s \<le> q' \<and> q' \<le> length tx \<longrightarrow> rx_run r U ic (start_at tx q') = []) \<Longrightarrow>
   finditer r U ic tx = [\<lparr>m_start = q, m_end = ms_pos s, m_caps = ms_caps s\<rparr>]"
  unfolding finditer_def
  by (rule iter_from_first[where tx=tx and q=q]) (simp_all add: start_at_def)

subsection \<open>Amount normalization\<close>

lemma tables_ok_ascii_db: "tables_ok ascii_db"
  unfolding tables_ok_def ascii_db_def
  by (auto simp: ascii_lower_char_def ascii_upper_def ascii_space_def ENDASH_def UMINUS_def)

lemma cut_single:
  "cut_matches tx 0 [\<lparr>m_start = b, m_end = e, m_caps = cps\<rparr>] = take b tx @ drop e tx"
  by (simp add: span_def)

lemma lead_class: "class_ok U False [CChar RUPEE, CChar (ch CHR ''r''), CSpace] = lead_char U"
  by (rule ext) (auto simp: class_ok_def lead_char_def lit_ok_def)

lemma space_class: "class_ok U ic [CSpace] = u_isspace U"
  by (rule ext) (simp add: class_ok_def)

lemma bol_later: "0 < q \<Longrightarrow> rx_run (Seq Bol r) U ic (start_at tx q) = []"
  by (simp add: start_at_def)

lemma sub_lead: "re_sub_empty lead_re U False s = dropWhile (lead_char U) s"
proof (cases "s = [] \<or> \<not> lead_char U (hd s)")
  case True
  have "rx_run lead_re U False (start_at s q) = []" for q
  proof (cases q)
    case 0
    have "rep_loop (step (lead_char U)) (Suc 0) None True (start_at s 0) = []"
      by (rule plus_miss) (use True in \<open>simp add: start_at_def\<close>)
    then show ?thesis
      using 0 by (simp add: lead_re_def Plus_def rx_run_cls_fun lead_class start_at_def)
  next
    case (Suc n)
    then show ?thesis unfolding lead_re_def by (intro bol_later) simp
  qed
  then have "finditer lead_re U False s = []" by (intro finditer_nothing) simp
  moreover have "dropWhile (lead_char U) s = s" using True by (cases s) auto
  ultimately show ?thesis by (simp add: re_sub_empty_def)
next
  case False
  define w where "w = takeWhile (lead_char U) s"
  define t where "t = dropWhile (lead_char U) s"
  have s: "s = w @ t" by (simp add: w_def t_def)
  have w: "w \<noteq> []" "list_all (lead_char U) w"
    using False by (cases s; auto simp: w_def list_all_iff dest: set_takeWhileD)+
  have t: "t = [] \<or> \<not> lead_char U (hd t)"
    unfolding t_def by (metis hd_dropWhile)
  let ?s0 = "start_at s 0"
  have "prefers (rx_run (Plus (Cls [CChar RUPEE, CChar (ch CHR ''r''), CSpace])) U False ?s0)
          (moved ?s0 w)"
    by (rule prefers_plus_cls[where t=t]) (use s w t in \<open>simp_all add: lead_class start_at_def\<close>)
  then have p: "prefers (rx_run lead_re U False ?s0) (moved ?s0 w)"
    by (simp add: lead_re_def start_at_def)
  have pos: "ms_pos (moved ?s0 w) = length w" by (simp add: moved_def start_at_def)
  have "finditer lead_re U False s =
      [\<lparr>m_start = 0, m_end = ms_pos (moved ?s0 w), m_caps = ms_caps (moved ?s0 w)\<rparr>]"
  proof (rule finditer_single[OF _ _ p])
    show "0 < ms_pos (moved ?s0 w)" using w by (simp add: moved_def start_at_def)
    show "\<forall>q'. ms_pos (moved ?s0 w) \<le> q' \<and> q' \<le> length s \<longrightarrow>
        rx_run lead_re U False (start_at s q') = []"
    proof (intro allI impI)
      fix q' assume "ms_pos (moved ?s0 w) \<le> q' \<and> q' \<le> length s"
      then have "0 < q'" using w by (cases w) (auto simp: moved_def start_at_def)
      then show "rx_run lead_re U False (start_at s q') = []"
        unfolding lead_re_def by (rule bol_later)
    qed
  qed simp_all
  then have "re_sub_empty lead_re U False s = take 0 s @ drop (length w) s"
    unfolding re_sub_empty_def pos by (simp only: cut_single)
  then show ?thesis by (simp add: w_def dropWhile_eq_drop)
qed

lemma cr_re_unfold:
  "cr_re = Seq (Star (Cls [CSpace])) (Seq (Lit (ch CHR ''C'')) (Seq (Lit (ch CHR ''R'')) WordB))"
  by (simp add: cr_re_def Space_def)

lemma start_at_rest: "ms_rest (start_at tx q) = drop q tx" "ms_pos (start_at tx q) = q"
  "ms_caps (start_at tx q) = []"
  by (simp_all add: start_at_def)

lemma cr_no_match:
  assumes "drop q tx = [] \<or> (\<not> u_isspace U (hd (drop q tx)) \<and> \<not> lit_ok U True (ch CHR ''C'') (hd (drop q tx)))"
  shows "rx_run cr_re U True (start_at tx q) = []"
proof -
  let ?s = "start_at tx q"
  have "rx_run (Star (Cls [CSpace])) U True ?s = [?s]"
    by (rule star_cls_stop) (use assms in \<open>auto simp: space_class start_at_rest\<close>)
  moreover have "step (lit_ok U True (ch CHR ''C'')) ?s = []"
    by (rule step_miss) (use assms in \<open>auto simp: start_at_rest\<close>)
  ultimately show ?thesis by (simp add: cr_re_unfold)
qed

lemma cr_match_at_end:
  assumes tx: "tx = body @ ws @ [c, r]" and ws: "list_all (u_isspace U) ws"
    and c: "lit_ok U True (ch CHR ''C'') c" "\<not> u_isspace U c"
    and r: "lit_ok U True (ch CHR ''R'') r" "is_word U r"
  shows "\<exists>s. prefers (rx_run cr_re U True (start_at tx (length body))) s \<and> ms_pos s = length tx"
proof -
  let ?s0 = "start_at tx (length body)"
  have r0: "ms_rest ?s0 = ws @ [c, r]" using tx by (simp add: start_at_rest)
  have 1: "prefers (rx_run (Star (Cls [CSpace])) U True ?s0) (moved ?s0 ws)"
    by (rule prefers_star_cls[OF r0]) (use ws c in \<open>simp_all add: space_class\<close>)
  let ?s1 = "moved ?s0 ws"
  have r1: "ms_rest ?s1 = c # [r]" using r0 by (simp add: moved_def)
  have 2: "prefers (rx_run (Lit (ch CHR ''C'')) U True ?s1) (moved ?s1 [c])"
    using r1 c(1) by (rule prefers_lit)
  let ?s2 = "moved ?s1 [c]"
  have r2: "ms_rest ?s2 = r # []" using r1 by (simp add: moved_def)
  have 3: "prefers (rx_run (Lit (ch CHR ''R'')) U True ?s2) (moved ?s2 [r])"
    using r2 r(1) by (rule prefers_lit)
  let ?s3 = "moved ?s2 [r]"
  have "ms_rest ?s3 = []" "ms_prev ?s3 = Some r" using r2 by (simp_all add: moved_def)
  then have "at_boundary U ?s3" using r(2) by (simp add: at_boundary_def)
  then have 4: "prefers (rx_run WordB U True ?s3) ?s3" by (simp add: prefers_def)
  have "prefers (rx_run cr_re U True ?s0) ?s3"
    unfolding cr_re_unfold by (intro prefers_seq[OF 1] prefers_seq[OF 2] prefers_seq[OF 3] 4)
  moreover have "ms_pos ?s3 = length tx" using tx by (simp add: moved_def start_at_def)
  ultimately show ?thesis by blast
qed

lemma sub_cr_suffix:
  assumes body: "list_all (\<lambda>d. \<not> u_isspace U d \<and> \<not> lit_ok U True (ch CHR ''C'') d) body"
    and ws: "list_all (u_isspace U) ws"
    and c: "lit_ok U True (ch CHR ''C'') c" "\<not> u_isspace U c"
    and r: "lit_ok U True (ch CHR ''R'') r" "is_word U r"
  shows "re_sub_empty cr_re U True (body @ ws @ [c, r]) = body"
proof -
  define tx where "tx = body @ ws @ [c, r]"
  from cr_match_at_end[OF tx_def ws c r] obtain s where
    s: "prefers (rx_run cr_re U True (start_at tx (length body))) s" "ms_pos s = length tx"
    by blast
  have before: "\<forall>q<length body. rx_run cr_re U True (start_at tx q) = []"
  proof (intro allI impI)
    fix q assume q: "q < length body"
    then have "hd (drop q tx) = body ! q" by (simp add: tx_def hd_drop_conv_nth nth_append)
    moreover have "\<not> u_isspace U (body ! q) \<and> \<not> lit_ok U True (ch CHR ''C'') (body ! q)"
      using body q by (simp add: list_all_length)
    ultimately show "rx_run cr_re U True (start_at tx q) = []"
      by (intro cr_no_match) simp
  qed
  have after: "\<forall>q. ms_pos s \<le> q \<and> q \<le> length tx \<longrightarrow> rx_run cr_re U True (start_at tx q) = []"
    using s(2) by (auto intro!: cr_no_match)
  have "finditer cr_re U True tx = [\<lparr>m_start = length body, m_end = ms_pos s, m_caps = ms_caps s\<rparr>]"
    by (rule finditer_single[OF _ before s(1) _ after]) (simp_all add: s(2) tx_def)
  then have "re_sub_empty cr_re U True tx = take (length body) tx @ drop (length tx) tx"
    unfolding re_sub_empty_def s(2) by (simp only: cut_single)
  then show ?thesis by (simp add: tx_def)
qed

lemma sub_cr_none:
  assumes body: "list_all (\<lambda>d. \<not> u_isspace U d \<and> \<not> lit_ok U True (ch CHR ''C'') d) body"
  shows "re_sub_empty cr_re U True body = body"
proof -
  have "rx_run cr_re U True (start_at body q) = []" if "q \<le> length body" for q
  proof (cases "q < length body")
    case True
    then have "hd (drop q body) = body ! q" by (simp add: hd_drop_conv_nth)
    moreover have "\<not> u_isspace U (body ! q) \<and> \<not> lit_ok U True (ch CHR ''C'') (body ! q)"
      using body True by (simp add: list_all_length)
    ultimately show ?thesis by (intro cr_no_match) simp
  next
    case False
    with that show ?thesis by (intro cr_no_match) simp
  qed
  then have "finditer cr_re U True body = []" by (intro finditer_nothing) simp
  then show ?thesis by (simp add: re_sub_empty_def)
qed

lemma strip_keeps_body:
  assumes "body \<noteq> []" and "\<not> u_isspace U (hd body)" and "\<not> u_isspace U (last body)"
  shows "py_strip U (pre @ body) = dropWhile (u_isspace U) pre @ body"
proof -
  let ?P = "u_isspace U"
  have b: "dropWhile ?P body = body" using assms by (cases body) auto
  have 1: "dropWhile ?P (pre @ body) = dropWhile ?P pre @ body"
    using b by (simp add: dropWhile_append)
  have "dropWhile ?P (rev (dropWhile ?P pre @ body)) = rev (dropWhile ?P pre @ body)"
    using assms by (cases "rev body") (auto simp: last_rev hd_rev)
  then show ?thesis by (simp add: py_strip_def 1)
qed

lemma tables_okD:
  assumes "tables_ok U"
  shows "d < 128 \<Longrightarrow> u_isspace U d = ascii_space d"
    and "d < 128 \<Longrightarrow> u_isalnum U d = (ascii_alpha d \<or> ascii_digit d)"
    and "c < 128 \<Longrightarrow> d < 128 \<Longrightarrow> c \<noteq> d \<Longrightarrow> u_caseless U c d = (ascii_lower_char c = ascii_lower_char d)"
    and "c \<noteq> d \<Longrightarrow> u_caseless U c d \<Longrightarrow> \<not> u_isspace U d"
    and "\<not> u_isspace U ENDASH" and "\<not> u_isspace U UMINUS"
    and "c \<noteq> ENDASH \<Longrightarrow> \<not> u_caseless U c ENDASH"
  using assms unfolding tables_ok_def by blast+

lemma amount_char_cases:
  assumes "amount_char d"
  shows "ascii_minus d < 128 \<and> \<not> ascii_space (ascii_minus d) \<and> ascii_minus d \<noteq> 67
     \<and> ascii_minus d \<noteq> 99 \<and> ascii_minus d \<noteq> 114 \<and> ascii_minus d \<noteq> RUPEE
     \<and> \<not> ascii_upper (ascii_minus d) \<and> (d = UMINUS \<or> (d < 128 \<and> \<not> ascii_space d))"
  using assms
  by (auto simp: amount_char_def ascii_minus_def ascii_digit_def ascii_space_def ascii_upper_def
      ch_def UMINUS_def RUPEE_def)

lemma cleaned_core_ok:
  assumes "tables_ok U" and "amount_char d"
  shows "\<not> u_isspace U (ascii_minus d)" "\<not> lit_ok U True (ch CHR ''C'') (ascii_minus d)"
    "\<not> lead_char U (ascii_minus d)" "\<not> u_isspace U d"
proof -
  note a = amount_char_cases[OF assms(2)]
  show 1: "\<not> u_isspace U (ascii_minus d)" using a tables_okD(1)[OF assms(1)] by simp
  have "u_caseless U 67 (ascii_minus d) = (ascii_lower_char 67 = ascii_lower_char (ascii_minus d))"
    using a by (intro tables_okD(3)[OF assms(1)]) simp_all
  then show "\<not> lit_ok U True (ch CHR ''C'') (ascii_minus d)"
    using a by (simp add: lit_ok_def ch_def ascii_lower_char_def ascii_upper_def)
  show "\<not> lead_char U (ascii_minus d)" using 1 a by (simp add: lead_char_def ch_def)
  show "\<not> u_isspace U d" using a tables_okD(1,6)[OF assms(1)] by auto
qed

lemma cr_letters_ok:
  assumes "tables_ok U" and "c = ch CHR ''C'' \<or> c = ch CHR ''c''" and "r = ch CHR ''R'' \<or> r = ch CHR ''r''"
  shows "lit_ok U True (ch CHR ''C'') c" "\<not> u_isspace U c" "lit_ok U True (ch CHR ''R'') r"
    "is_word U r" "\<not> u_isspace U r" "c \<noteq> UMINUS" "r \<noteq> UMINUS"
proof -
  have c: "c = 67 \<or> c = 99" and r: "r = 82 \<or> r = 114" using assms by (simp_all add: ch_def)
  have "u_caseless U 67 99" using tables_okD(3)[OF assms(1), of 67 99]
    by (simp add: ascii_lower_char_def ascii_upper_def)
  then show "lit_ok U True (ch CHR ''C'') c" using c by (auto simp: lit_ok_def ch_def)
  have "u_caseless U 82 114" using tables_okD(3)[OF assms(1), of 82 114]
    by (simp add: ascii_lower_char_def ascii_upper_def)
  then show "lit_ok U True (ch CHR ''R'') r" using r by (auto simp: lit_ok_def ch_def)
  show "\<not> u_isspace U c" using c tables_okD(1)[OF assms(1), of c] by (auto simp: ascii_space_def)
  show "\<not> u_isspace U r" using r tables_okD(1)[OF assms(1), of r] by (auto simp: ascii_space_def)
  show "is_word U r" using r tables_okD(2)[OF assms(1), of r]
    by (auto simp: is_word_def ascii_alpha_def ascii_upper_def)
  show "c \<noteq> UMINUS" "r \<noteq> UMINUS" using c r by (auto simp: UMINUS_def)
qed

lemma map_id_on: "(\<And>x. x \<in> set xs \<Longrightarrow> f x = x) \<Longrightarrow> map f xs = xs"
  by (induction xs) auto

lemma clean_amount_shape:
  assumes U: "tables_ok U" and core: "core \<noteq> []" "list_all amount_char core"
    and pre: "list_all (lead_char U) pre" and ws: "list_all (u_isspace U) ws"
    and c: "c = ch CHR ''C'' \<or> c = ch CHR ''c''" and r: "r = ch CHR ''R'' \<or> r = ch CHR ''r''"
    and sfx: "sfx = [] \<or> sfx = ws @ [c, r]"
  shows "clean_amount U (pre @ core @ sfx) = map ascii_minus core"
proof -
  note L = cr_letters_ok[OF U c r]
  define pre' where "pre' = dropWhile (u_isspace U) pre"
  define core' where "core' = map ascii_minus core"
  have core_sp: "\<not> u_isspace U d" if "d \<in> set core" for d
    using cleaned_core_ok(4)[OF U] core(2) that by (auto simp: list_all_iff)
  have hd_core: "hd core \<in> set core" "last core \<in> set core" using core(1) by simp_all
  \<comment> \<open>strip\<close>
  have body: "core @ sfx \<noteq> []" "\<not> u_isspace U (hd (core @ sfx))"
    "\<not> u_isspace U (last (core @ sfx))"
    using core(1) sfx core_sp hd_core L(5) by auto
  have s1: "py_strip U (pre @ core @ sfx) = pre' @ core @ sfx"
    using strip_keeps_body[OF body, of pre] by (simp add: pre'_def)
  \<comment> \<open>the minus sign\<close>
  have pre'_lead: "list_all (lead_char U) pre'"
    using pre set_dropWhileD[of _ "u_isspace U" pre] by (auto simp: pre'_def list_all_iff)
  have "d \<noteq> UMINUS" if "lead_char U d" for d
    using that tables_okD(6)[OF U] by (auto simp: lead_char_def RUPEE_def UMINUS_def ch_def)
  then have m_pre: "map ascii_minus pre' = pre'"
    using pre'_lead by (intro map_id_on) (auto simp: list_all_iff ascii_minus_def)
  have "d \<noteq> UMINUS" if "d \<in> set sfx" for d
    using that sfx ws L(6,7) tables_okD(6)[OF U] by (auto simp: list_all_iff)
  then have m_suf: "map ascii_minus sfx = sfx"
    by (intro map_id_on) (auto simp: ascii_minus_def)
  have s2: "map ascii_minus (pre' @ core @ sfx) = pre' @ core' @ sfx"
    by (simp add: m_pre m_suf core'_def)
  \<comment> \<open>the leading markers\<close>
  have core'_ok: "\<not> u_isspace U d \<and> \<not> lit_ok U True (ch CHR ''C'') d \<and> \<not> lead_char U d"
    if "d \<in> set core'" for d
    using that cleaned_core_ok(1,2,3)[OF U] core(2) by (auto simp: core'_def list_all_iff)
  have core'_ne: "core' \<noteq> []" using core(1) by (simp add: core'_def)
  then have "hd core' \<in> set core'" by simp
  then have "dropWhile (lead_char U) (core' @ sfx) = core' @ sfx"
    using core'_ok core'_ne by (cases core') auto
  then have s3: "dropWhile (lead_char U) (pre' @ core' @ sfx) = core' @ sfx"
    using pre'_lead by (simp add: dropWhile_append list_all_iff)
  \<comment> \<open>the CR marker\<close>
  have body': "list_all (\<lambda>d. \<not> u_isspace U d \<and> \<not> lit_ok U True (ch CHR ''C'') d) core'"
    using core'_ok by (simp add: list_all_iff)
  have s4: "re_sub_empty cr_re U True (core' @ sfx) = core'"
  proof (cases "sfx = []")
    case True
    then show ?thesis using sub_cr_none[OF body'] by simp
  next
    case False
    with sfx have "sfx = ws @ [c, r]" by simp
    then show ?thesis using sub_cr_suffix[OF body' ws L(1,2,3,4)] by simp
  qed
  have "clean_amount U (pre @ core @ sfx)
        = re_sub_empty cr_re U True (re_sub_empty lead_re U False
            (map ascii_minus (py_strip U (pre @ core @ sfx))))"
    by (simp add: clean_amount_def Let_def ascii_minus_def[abs_def])
  also have "\<dots> = core'" by (simp only: s1 s2 sub_lead s3 s4)
  finally show ?thesis by (simp add: core'_def)
qed

text \<open>
  C4. For an input made of leading markers (rupee signs, \<open>r\<close>, whitespace), an amount
  (digits, commas, a point, a hyphen or the minus sign U+2212) and, optionally,
  whitespace and \<open>CR\<close> in either case, \<open>_clean_amount\<close> returns the amount alone: a string
  with its digits, grouping and decimal point as they were and each minus sign U+2212
  replaced by the ASCII hyphen. In particular the rupee sign followed by
  \<open> 1,234.56 CR\<close> gives \<open>1,234.56\<close>.
\<close>

theorem clean_amount_normalizes:
  "(tables_ok U \<and> core \<noteq> [] \<and> list_all amount_char core \<and> list_all (lead_char U) pre
      \<and> list_all (u_isspace U) ws \<and> (c = ch CHR ''C'' \<or> c = ch CHR ''c'')
      \<and> (r = ch CHR ''R'' \<or> r = ch CHR ''r'') \<and> (sfx = [] \<or> sfx = ws @ [c, r])
    \<longrightarrow> clean_amount U (pre @ core @ sfx) = map ascii_minus core)
   \<and> (tables_ok U \<longrightarrow>
        clean_amount U (RUPEE # ascii '' 1,234.56 CR'') = ascii ''1,234.56'')"
proof -
  have ex: "clean_amount U (RUPEE # ascii '' 1,234.56 CR'') = ascii ''1,234.56''" if U: "tables_ok U"
  proof -
    have sp: "u_isspace U 32" using tables_okD(1)[OF U, of 32] by (simp add: ascii_space_def)
    have "clean_amount U ([RUPEE, 32] @ ascii ''1,234.56'' @ ([32] @ [ch CHR ''C'', ch CHR ''R'']))
        = map ascii_minus (ascii ''1,234.56'')"
      by (rule clean_amount_shape[OF U])
         (simp_all add: sp lead_char_def amount_char_def ascii_def ascii_digit_def ch_def)
    then show ?thesis
      by (simp add: ascii_def ch_def ascii_minus_def UMINUS_def)
  qed
  show ?thesis using clean_amount_shape ex by blast
qed

theorem clean_amount_normalizes_witness:
  "clean_amount ascii_db (RUPEE # ascii '' 1,234.56 CR'') = ascii ''1,234.56''
   \<and> clean_amount ascii_db (ascii ''r '' @ [UMINUS] @ ascii ''1,234.56  cr'') = ascii ''-1,234.56''"
proof -
  note U = tables_ok_ascii_db
  have 1: "clean_amount ascii_db (RUPEE # ascii '' 1,234.56 CR'') = ascii ''1,234.56''"
    using clean_amount_normalizes[of ascii_db] U by blast
  have h: "[UMINUS] @ ascii ''1,234.56'' \<noteq> []" "list_all amount_char ([UMINUS] @ ascii ''1,234.56'')"
    "list_all (lead_char ascii_db) (ascii ''r '')" "list_all (u_isspace ascii_db) (ascii ''  '')"
    "ch CHR ''c'' = ch CHR ''C'' \<or> ch CHR ''c'' = ch CHR ''c''"
    "ch CHR ''r'' = ch CHR ''R'' \<or> ch CHR ''r'' = ch CHR ''r''"
    "ascii ''  cr'' = [] \<or> ascii ''  cr'' = ascii ''  '' @ [ch CHR ''c'', ch CHR ''r'']"
    by (simp_all add: amount_char_def lead_char_def ascii_def ascii_digit_def ch_def ascii_db_def
        ascii_space_def)
  from clean_amount_normalizes[of ascii_db "[UMINUS] @ ascii ''1,234.56''" "ascii ''r ''" "ascii ''  ''"
      "ch CHR ''c''" "ch CHR ''r''" "ascii ''  cr''"] U h
  have "clean_amount ascii_db (ascii ''r '' @ ([UMINUS] @ ascii ''1,234.56'') @ ascii ''  cr'')
      = map ascii_minus ([UMINUS] @ ascii ''1,234.56'')" by blast
  then have 2: "clean_amount ascii_db (ascii ''r '' @ [UMINUS] @ ascii ''1,234.56  cr'') = ascii ''-1,234.56''"
    by (simp add: ascii_def ascii_minus_def ch_def UMINUS_def)
  from 1 2 show ?thesis by simp
qed

section \<open>Bank 1: the closing date\<close>











lemma closing_date_unspaced_hyphen:
  "\<exists>out. parse_bank_1 ascii_db (ascii ''Opening/Closing Date 01/02/2024-01/31/2024'') = Inr out
      \<and> out ''statement_closing_date'' = Some (Some (ascii ''01/31/2024''))"
proof -
  have "(case parse_bank_1 ascii_db (ascii ''Opening/Closing Date 01/02/2024-01/31/2024'') of
           Inl e \<Rightarrow> False
         | Inr out \<Rightarrow> out ''statement_closing_date'' = Some (Some (ascii ''01/31/2024'')))"
    by code_simp
  then show ?thesis by (auto split: sum.splits)
qed

end
